theory Spec2Isabelle
  imports Main "HOL-Library.Word" "HOL-Library.Multiset" "HOL-Library.Char_ord" "HOL-Library.List_Lexorder"
begin

section \<open>Conventions\<close>

text \<open>
  This theory embeds the parts of \<^verbatim>\<open>src/sync.cpp\<close> that deal with filesystem-id
  assignment, notification intake and the triplet reconciler.

  \<^item> A \<^verbatim>\<open>LocalPath\<close> is its byte string; the local separator is one character.
  \<^item> \<^verbatim>\<open>size_t\<close> counters are natural numbers (they are bounded by string lengths);
    \<^verbatim>\<open>static_cast<int>\<close> keeps the low 32 bits, read as two's complement.
  \<^item> \<^verbatim>\<open>assert\<close> is compiled out (release build, \<^verbatim>\<open>NDEBUG\<close>): the code after a
    failed assertion is what runs.
  \<^item> Dereferencing a null pointer is the error value \<open>NullDeref\<close>.
  \<^item> A recursion that follows the directory tree on disk or the rows of the reconciler takes
    a depth bound as its first argument and is \<open>None\<close> when the bound is used up; that such a
    function returns is stated as: a large enough bound gives \<open>Some\<close>.
\<close>

section \<open>Reverse path match score\<close>

type_synonym localpath = string

definition static_cast_int :: "nat \<Rightarrow> int" where
  "static_cast_int n = sint (word_of_nat n :: 32 word)"

text \<open>
  The \<^verbatim>\<open>while\<close> loop of \<^verbatim>\<open>computeReversePathMatchScore\<close>; the state is
  \<open>(index, separatorBias, accumulated)\<close>. \<^verbatim>\<open>break\<close> returns the state unchanged.
\<close>

function rpmsLoop ::
  "char \<Rightarrow> localpath \<Rightarrow> localpath \<Rightarrow> nat \<Rightarrow> nat \<Rightarrow> nat \<Rightarrow> nat \<Rightarrow> string \<Rightarrow> nat \<times> nat \<times> string" where
  "rpmsLoop sep path1 path2 path1End path2End index separatorBias accumulated =
     (if index \<le> path1End \<and> index \<le> path2End then
        (let value1 = path1 ! (path1End - index);
             value2 = path2 ! (path2End - index) in
         if value1 \<noteq> value2 then (index, separatorBias, accumulated)
         else
           (let accumulated' = accumulated @ [value1] in
            if accumulated' \<noteq> [] \<and> last accumulated' = sep
            then rpmsLoop sep path1 path2 path1End path2End (index + 1) (separatorBias + 1) []
            else rpmsLoop sep path1 path2 path1End path2End (index + 1) separatorBias accumulated'))
      else (index, separatorBias, accumulated))"
  by pat_completeness auto
termination
  by (relation "measure (\<lambda>(sep, path1, path2, path1End, path2End, index, b, acc). Suc path1End - index)") auto

declare rpmsLoop.simps [simp del]

text \<open>
  \<^verbatim>\<open>computeReversePathMatchScore\<close>. The loop is entered with both paths non-empty, so
  \<open>path1End\<close> and \<open>path2End\<close> are the indices of the last bytes and every read is in range.
\<close>

definition computeReversePathMatchScore :: "char \<Rightarrow> localpath \<Rightarrow> localpath \<Rightarrow> int" where
  "computeReversePathMatchScore sep path1 path2 =
     (if path1 = [] \<or> path2 = [] then 0
      else
        (let path1End = length path1 - 1; path2End = length path2 - 1 in
         case rpmsLoop sep path1 path2 path1End path2End 0 0 [] of
           (index, separatorBias, accumulated) \<Rightarrow>
             if index > path1End \<and> index > path2End
             then static_cast_int (index - separatorBias)
             else static_cast_int (index - separatorBias - length accumulated)))"

text \<open>The leaf name of a path: what follows its last separator.\<close>

definition leafname :: "char \<Rightarrow> localpath \<Rightarrow> string" where
  "leafname sep p = rev (takeWhile (\<lambda>c. c \<noteq> sep) (rev p))"

section \<open>Light fingerprints\<close>

type_synonym handle = "64 word"
type_synonym m_off_t = "64 word"
type_synonym m_time_t = "64 word"

text \<open>\<^verbatim>\<open>mega::UNDEF\<close> is the handle with all bits set.\<close>

definition UNDEF :: handle where
  "UNDEF = - 1"

text \<open>
  \<^verbatim>\<open>nodetype_t\<close>: the functions below distinguish \<^verbatim>\<open>FILENODE\<close>, \<^verbatim>\<open>FOLDERNODE\<close> and
  "anything else", which is \<open>TYPE_UNKNOWN\<close> here.
\<close>

datatype nodetype_t = TYPE_UNKNOWN | FILENODE | FOLDERNODE

record LightFileFingerprint =
  ffp_size :: m_off_t
  ffp_mtime :: m_time_t

text \<open>
  Modelled from the spec: \<^verbatim>\<open>LightFileFingerprint::genfingerprint(size, mtime)\<close> (not in this
  file). The spec has the light fingerprint of a file as its size and its modification time;
  the function stores both values.
\<close>

definition genfingerprint :: "m_off_t \<Rightarrow> m_time_t \<Rightarrow> LightFileFingerprint" where
  "genfingerprint sz mt = \<lparr>ffp_size = sz, ffp_mtime = mt\<rparr>"

text \<open>
  \<^verbatim>\<open>hashCombine(seed, v)\<close> is declared outside this file; it updates \<open>seed\<close> in place.
  Every function that uses it takes the operator as the parameter \<open>hc\<close>, where
  \<open>hc seed v\<close> is the new seed.
\<close>

type_synonym hash_op = "64 word \<Rightarrow> 64 word \<Rightarrow> 64 word"


definition hashCombineFingerprint ::
  "hash_op \<Rightarrow> LightFileFingerprint \<Rightarrow> LightFileFingerprint \<Rightarrow> LightFileFingerprint" where
  "hashCombineFingerprint hc ffp other =
     \<lparr>ffp_size = hc (ffp_size ffp) (ffp_size other),
      ffp_mtime = hc (ffp_mtime ffp) (ffp_mtime other)\<rparr>"

section \<open>Local nodes\<close>

text \<open>
  A \<^verbatim>\<open>LocalNode*\<close> is an address. The fields that the functions of this theory only read
  are kept in the tree itself. The fields that are written (\<^verbatim>\<open>fsid\<close>, \<^verbatim>\<open>fsid_it\<close>, the
  two tree-action flags, \<^verbatim>\<open>lastScanTime\<close>) live in a heap indexed by address.

  Modelled from the spec: the type \<^verbatim>\<open>localnode_map\<close> of \<^verbatim>\<open>LocalNode::children\<close> (not in
  this file). The spec has it as a "mapping from leaf name to owned child; iteration order
  irrelevant". \<open>children\<close> lists the entries of the map in the order in which a loop over the
  map meets them; nothing is assumed of that order.
\<close>

type_synonym lnptr = nat
type_synonym dstime = "32 word"

record LocalNodeFields =
  ln_ptr :: lnptr
  ln_type :: nodetype_t
  ln_name :: string
  ln_localname :: localpath
  ln_slocalname :: "localpath option"
  ln_size :: m_off_t
  ln_mtime :: m_time_t
  ln_isvalid :: bool
  ln_syncedCloudNodeHandle :: handle
  ln_transfer :: bool

datatype LocalNode = LocalNode (lnf: LocalNodeFields) (children: "LocalNode list")

text \<open>The tree-action values, ordered as \<^verbatim>\<open>std::max<unsigned>\<close> orders them.\<close>

datatype treeaction = SYNCTREE_RESOLVED | SYNCTREE_ACTION_HERE_ONLY | SYNCTREE_ACTION_HERE_AND_BELOW

fun treeaction_rank :: "treeaction \<Rightarrow> nat" where
  "treeaction_rank SYNCTREE_RESOLVED = 0"
| "treeaction_rank SYNCTREE_ACTION_HERE_ONLY = 1"
| "treeaction_rank SYNCTREE_ACTION_HERE_AND_BELOW = 2"

definition treeaction_max :: "treeaction \<Rightarrow> treeaction \<Rightarrow> treeaction" where
  "treeaction_max a b = (if treeaction_rank a < treeaction_rank b then b else a)"

record LocalNodeState =
  fsid :: handle
  fsid_it :: "handle option"
  scanAgain :: treeaction
  syncAgain :: treeaction
  lastScanTime :: dstime

type_synonym lnheap = "lnptr \<Rightarrow> LocalNodeState"

text \<open>\<^verbatim>\<open>handlelocalnode_map\<close>: the index from filesystem id to node.\<close>

type_synonym handlelocalnode_map = "handle \<rightharpoonup> lnptr"

text \<open>
  Modelled from the spec: \<^verbatim>\<open>LocalNode::setfsid\<close> (not in this file): it "removes prior index
  entry if any, installs new one". \<^verbatim>\<open>fsid_it\<close> is the key of the node's index entry, or
  \<open>None\<close> for \<^verbatim>\<open>fsidnodes.end()\<close>.
\<close>

definition setfsid ::
  "lnptr \<Rightarrow> handle \<Rightarrow> lnheap \<times> handlelocalnode_map \<Rightarrow> lnheap \<times> handlelocalnode_map" where
  "setfsid l newfsid s =
     (case s of (h, fsidnodes) \<Rightarrow>
        let fsidnodes1 = (case fsid_it (h l) of None \<Rightarrow> fsidnodes | Some k \<Rightarrow> fsidnodes(k := None))
        in (h(l := (h l)\<lparr>fsid := newfsid, fsid_it := Some newfsid\<rparr>), fsidnodes1(newfsid \<mapsto> l)))"

text \<open>
  \<^verbatim>\<open>combinedFingerprint(ffp, nodeMap)\<close>: the loop over the children, as the map lists them; the
  result is the success flag and the updated fingerprint.
\<close>

fun combinedFingerprint_loop ::
  "hash_op \<Rightarrow> LocalNode list \<Rightarrow> bool \<times> LightFileFingerprint \<Rightarrow> bool \<times> LightFileFingerprint" where
  "combinedFingerprint_loop hc [] s = s"
| "combinedFingerprint_loop hc (l # ls) (success, ffp) =
     (if ln_type (lnf l) = FILENODE
      then combinedFingerprint_loop hc ls
             (True, hashCombineFingerprint hc ffp (genfingerprint (ln_size (lnf l)) (ln_mtime (lnf l))))
      else combinedFingerprint_loop hc ls (success, ffp))"

definition combinedFingerprint ::
  "hash_op \<Rightarrow> LightFileFingerprint \<Rightarrow> LocalNode list \<Rightarrow> bool \<times> LightFileFingerprint" where
  "combinedFingerprint hc ffp nodeMap = combinedFingerprint_loop hc nodeMap (False, ffp)"

text \<open>\<^verbatim>\<open>computeFingerprint(ffp, l)\<close> for a local node.\<close>

definition computeFingerprint ::
  "hash_op \<Rightarrow> LightFileFingerprint \<Rightarrow> LocalNode \<Rightarrow> bool \<times> LightFileFingerprint" where
  "computeFingerprint hc ffp l =
     (if ln_type (lnf l) = FILENODE
        then (True, genfingerprint (ln_size (lnf l)) (ln_mtime (lnf l)))
      else if ln_type (lnf l) = FOLDERNODE
        then combinedFingerprint hc ffp (children l)
      else (False, ffp))"

section \<open>The environment of the sync\<close>

text \<open>
  What \<^verbatim>\<open>sync.cpp\<close> reaches through \<^verbatim>\<open>FileSystemAccess\<close>, \<^verbatim>\<open>FileAccess\<close>, \<^verbatim>\<open>DirAccess\<close>,
  \<^verbatim>\<open>MegaApp\<close> and through declarations of other files is collected in one record of
  parameters. \<open>fopen\<close> is \<^verbatim>\<open>newfileaccess\<close> followed by \<^verbatim>\<open>fopen\<close>: \<open>None\<close> when the open
  fails, the opened \<^verbatim>\<open>FileAccess\<close> otherwise. \<open>dnext p follow\<close> is the sequence of leaf names
  that repeated \<^verbatim>\<open>dnext\<close> calls deliver for the directory \<open>p\<close>.
\<close>

record FileAccess =
  fa_type :: nodetype_t
  fa_mIsSymLink :: bool
  fa_fsid :: handle
  fa_fsidvalid :: bool
  fa_size :: m_off_t
  fa_mtime :: m_time_t

record SyncEnv =
  hashCombine :: hash_op
  LightFileFingerprintCmp :: "LightFileFingerprint \<Rightarrow> LightFileFingerprint \<Rightarrow> bool"
  ffp_default :: LightFileFingerprint
  fopen :: "localpath \<Rightarrow> FileAccess option"
  dopen :: "localpath \<Rightarrow> bool"
  dnext :: "localpath \<Rightarrow> bool \<Rightarrow> localpath list"
  localseparator :: char
  toName :: "localpath \<Rightarrow> string"
  sync_syncable :: "string \<Rightarrow> localpath \<Rightarrow> bool"

section \<open>Path operations declared elsewhere\<close>

text \<open>
  Modelled from the spec: \<^verbatim>\<open>LocalPath::appendWithSeparator\<close> (not in this file): it "adds a
  separator if base is non-empty and does not already end in one".
\<close>

definition appendWithSeparator :: "char \<Rightarrow> localpath \<Rightarrow> localpath \<Rightarrow> localpath" where
  "appendWithSeparator sep base leaf =
     (if base \<noteq> [] \<and> last base \<noteq> sep then base @ [sep] @ leaf else base @ leaf)"

text \<open>
  Modelled from the spec: \<^verbatim>\<open>LocalPath::isContainingPathOf\<close> (not in this file): it "returns
  the byte index in b at which the remainder begins, if a is a path prefix of b on component
  boundaries; otherwise none".
\<close>

definition isContainingPathOf :: "char \<Rightarrow> localpath \<Rightarrow> localpath \<Rightarrow> nat option" where
  "isContainingPathOf sep a b =
     (if length a \<le> length b \<and> take (length a) b = a then
        (if length b = length a then Some (length a)
         else if b ! length a = sep then Some (length a + 1)
         else if a \<noteq> [] \<and> last a = sep then Some (length a)
         else None)
      else None)"

section \<open>Collecting local nodes and files by fingerprint\<close>

text \<open>
  \<^verbatim>\<open>FingerprintCache\<close> holds a \<^verbatim>\<open>std::set\<close> of fingerprints under the comparator: a list in
  comparator order without equivalent elements. \<open>fpset_add\<close> is \<^verbatim>\<open>FingerprintCache::add\<close>; it
  returns the stored element that the returned pointer refers to, and the new set.
\<close>

fun fpset_add ::
  "(LightFileFingerprint \<Rightarrow> LightFileFingerprint \<Rightarrow> bool) \<Rightarrow> LightFileFingerprint \<Rightarrow>
   LightFileFingerprint list \<Rightarrow> LightFileFingerprint \<times> LightFileFingerprint list" where
  "fpset_add lt x [] = (x, [x])"
| "fpset_add lt x (y # ys) =
     (if lt x y then (x, x # y # ys)
      else if lt y x then (case fpset_add lt x ys of (p, ys') \<Rightarrow> (p, y # ys'))
      else (y, y # ys))"

text \<open>
  A \<^verbatim>\<open>std::multimap\<close> keyed by fingerprint: the entries in key order, entries of equivalent
  keys in insertion order. \<open>mm_equal_range\<close> is \<^verbatim>\<open>equal_range\<close>, \<open>mm_erase\<close> erases
  that range.
\<close>

fun mm_insert ::
  "('k \<Rightarrow> 'k \<Rightarrow> bool) \<Rightarrow> 'k \<times> 'v \<Rightarrow> ('k \<times> 'v) list \<Rightarrow> ('k \<times> 'v) list" where
  "mm_insert lt kv [] = [kv]"
| "mm_insert lt kv (kv' # xs) =
     (if lt (fst kv) (fst kv') then kv # kv' # xs else kv' # mm_insert lt kv xs)"

definition mm_equiv :: "('k \<Rightarrow> 'k \<Rightarrow> bool) \<Rightarrow> 'k \<Rightarrow> 'k \<Rightarrow> bool" where
  "mm_equiv lt a b = (\<not> lt a b \<and> \<not> lt b a)"

definition mm_equal_range :: "('k \<Rightarrow> 'k \<Rightarrow> bool) \<Rightarrow> ('k \<times> 'v) list \<Rightarrow> 'k \<Rightarrow> 'v list" where
  "mm_equal_range lt m k = map snd (filter (\<lambda>kv. mm_equiv lt (fst kv) k) m)"

definition mm_erase :: "('k \<Rightarrow> 'k \<Rightarrow> bool) \<Rightarrow> 'k \<Rightarrow> ('k \<times> 'v) list \<Rightarrow> ('k \<times> 'v) list" where
  "mm_erase lt k m = filter (\<lambda>kv. \<not> mm_equiv lt (fst kv) k) m"

record FsFile =
  ff_fsid :: handle
  ff_path :: localpath

type_synonym FingerprintLocalNodeMap = "(LightFileFingerprint \<times> lnptr) list"
type_synonym FingerprintFileMap = "(LightFileFingerprint \<times> FsFile) list"

text \<open>
  \<^verbatim>\<open>collectAllPathsInFolder\<close>: the result is a \<^verbatim>\<open>std::set<LocalPath>\<close>, that is, the paths in
  ascending order without repetition.
\<close>

definition collectAllPathsInFolder :: "SyncEnv \<Rightarrow> localpath \<Rightarrow> localpath \<Rightarrow> localpath list" where
  "collectAllPathsInFolder env localpath localdebris =
     (case fopen env localpath of
        None \<Rightarrow> []
      | Some fa \<Rightarrow>
          if fa_mIsSymLink fa then []
          else if \<not> dopen env localpath then []
          else sort (remdups
                 (filter (\<lambda>p. isContainingPathOf (localseparator env) localdebris p = None)
                    (concat (map (\<lambda>localname.
                        let p = appendWithSeparator (localseparator env) localpath localname
                        in if sync_syncable env (toName env localname) p then [p] else [])
                      (dnext env localpath False))))))"

text \<open>
  \<^verbatim>\<open>combinedFingerprint(ffp, fsaccess, paths)\<close>: a failed open ends the loop with
  \<open>success = false\<close>; a symlink is passed over.
\<close>

fun combinedFingerprint_paths_loop ::
  "SyncEnv \<Rightarrow> localpath list \<Rightarrow> bool \<times> LightFileFingerprint \<Rightarrow> bool \<times> LightFileFingerprint" where
  "combinedFingerprint_paths_loop env [] s = s"
| "combinedFingerprint_paths_loop env (path # paths) (success, ffp) =
     (case fopen env path of
        None \<Rightarrow> (False, ffp)
      | Some fa \<Rightarrow>
          if fa_mIsSymLink fa then combinedFingerprint_paths_loop env paths (success, ffp)
          else if fa_type fa = FILENODE
          then combinedFingerprint_paths_loop env paths
                 (True, hashCombineFingerprint (hashCombine env) ffp
                          (genfingerprint (fa_size fa) (fa_mtime fa)))
          else combinedFingerprint_paths_loop env paths (success, ffp))"

definition combinedFingerprint_paths ::
  "SyncEnv \<Rightarrow> LightFileFingerprint \<Rightarrow> localpath list \<Rightarrow> bool \<times> LightFileFingerprint" where
  "combinedFingerprint_paths env ffp paths = combinedFingerprint_paths_loop env paths (False, ffp)"

text \<open>\<^verbatim>\<open>computeFingerprint(ffp, fsaccess, fa, path, paths)\<close> for an opened file or folder.\<close>

definition computeFingerprint_fa ::
  "SyncEnv \<Rightarrow> LightFileFingerprint \<Rightarrow> FileAccess \<Rightarrow> localpath list \<Rightarrow> bool \<times> LightFileFingerprint" where
  "computeFingerprint_fa env ffp fa paths =
     (if fa_type fa = FILENODE then (True, genfingerprint (fa_size fa) (fa_mtime fa))
      else if fa_type fa = FOLDERNODE then combinedFingerprint_paths env ffp paths
      else (False, ffp))"

text \<open>
  \<^verbatim>\<open>collectAllLocalNodes\<close>. The state is the fingerprint set, the multimap of nodes, the
  heap and the fsid index.
\<close>

type_synonym collect_state =
  "LightFileFingerprint list \<times> FingerprintLocalNodeMap \<times> lnheap \<times> handlelocalnode_map"

fun collectAllLocalNodes :: "SyncEnv \<Rightarrow> LocalNode \<Rightarrow> collect_state \<Rightarrow> collect_state" where
  "collectAllLocalNodes env (LocalNode f cs) (fingerprints, localnodes, h, fsidnodes) =
     (let l = ln_ptr f;
          h1 = h(l := (h l)\<lparr>fsid := UNDEF\<rparr>);
          fsidnodes1 = (case fsid_it (h1 l) of None \<Rightarrow> fsidnodes | Some k \<Rightarrow> fsidnodes(k := None));
          h2 = (case fsid_it (h1 l) of None \<Rightarrow> h1 | Some k \<Rightarrow> h1(l := (h1 l)\<lparr>fsid_it := None\<rparr>));
          r = computeFingerprint (hashCombine env) (ffp_default env) (LocalNode f cs);
          s1 = (if fst r
                then (case fpset_add (LightFileFingerprintCmp env) (snd r) fingerprints of
                        (ffpPtr, fingerprints') \<Rightarrow>
                          (fingerprints',
                           mm_insert (LightFileFingerprintCmp env) (ffpPtr, l) localnodes,
                           h2, fsidnodes1))
                else (fingerprints, localnodes, h2, fsidnodes1))
      in if ln_type f = FILENODE then s1
         else fold (collectAllLocalNodes env) cs s1)"

text \<open>
  \<^verbatim>\<open>collectAllFiles\<close>. The filesystem is reached by path only, so nothing bounds the depth
  of the walk: the recursion carries fuel, and \<open>None\<close> is a walk that did not end within it.
  The state is \<open>(success, fingerprints, files)\<close>.
\<close>

type_synonym files_state = "bool \<times> LightFileFingerprint list \<times> FingerprintFileMap"

definition insertFingerprint ::
  "SyncEnv \<Rightarrow> FileAccess \<Rightarrow> localpath \<Rightarrow> localpath list \<Rightarrow> files_state \<Rightarrow> files_state" where
  "insertFingerprint env fa path paths s =
     (case s of (success, fingerprints, files) \<Rightarrow>
        let r = computeFingerprint_fa env (ffp_default env) fa paths
        in if fst r
           then (case fpset_add (LightFileFingerprintCmp env) (snd r) fingerprints of
                   (ffpPtr, fingerprints') \<Rightarrow>
                     (success, fingerprints',
                      mm_insert (LightFileFingerprintCmp env)
                        (ffpPtr, \<lparr>ff_fsid = fa_fsid fa, ff_path = path\<rparr>) files))
           else s)"

fun option_fold :: "('a \<Rightarrow> 's \<Rightarrow> 's option) \<Rightarrow> 'a list \<Rightarrow> 's \<Rightarrow> 's option" where
  "option_fold f [] s = Some s"
| "option_fold f (x # xs) s = (case f x s of None \<Rightarrow> None | Some s' \<Rightarrow> option_fold f xs s')"

fun collectAllFiles ::
  "nat \<Rightarrow> SyncEnv \<Rightarrow> localpath \<Rightarrow> localpath \<Rightarrow> files_state \<Rightarrow> files_state option" where
  "collectAllFiles 0 env localdebris localpath s = None"
| "collectAllFiles (Suc n) env localdebris localpath (success, fingerprints, files) =
     (case fopen env localpath of
        None \<Rightarrow> Some (False, fingerprints, files)
      | Some fa \<Rightarrow>
          if fa_mIsSymLink fa then Some (success, fingerprints, files)
          else if \<not> fa_fsidvalid fa then Some (False, fingerprints, files)
          else if fa_type fa = FILENODE
            then Some (insertFingerprint env fa localpath [] (success, fingerprints, files))
          else if fa_type fa = FOLDERNODE
            then (let paths = collectAllPathsInFolder env localpath localdebris
                  in option_fold (\<lambda>path. collectAllFiles n env localdebris path) paths
                       (insertFingerprint env fa localpath paths (success, fingerprints, files)))
          else Some (False, fingerprints, files))"

section \<open>Assigning filesystem ids\<close>

text \<open>
  \<^verbatim>\<open>LocalNode::getLocalPath\<close> is not in this file. The path of a node is taken to be its
  parent's path with the node's local name appended; the local name of the root is the root
  path, which is how \<^verbatim>\<open>assignFilesystemIds\<close> uses it.
\<close>

fun localPaths :: "char \<Rightarrow> localpath \<Rightarrow> LocalNode \<Rightarrow> (lnptr \<times> localpath) list" where
  "localPaths sep path (LocalNode f cs) =
     (ln_ptr f, path) #
       concat (map (\<lambda>c. localPaths sep (appendWithSeparator sep path (ln_localname (lnf c))) c) cs)"

definition getLocalPath :: "char \<Rightarrow> LocalNode \<Rightarrow> lnptr \<Rightarrow> localpath" where
  "getLocalPath sep root l =
     (case map_of (localPaths sep (ln_localname (lnf root)) root) l of
        Some p \<Rightarrow> p
      | None \<Rightarrow> [])"

record Element =
  el_score :: int
  el_fsid :: handle
  el_l :: lnptr

text \<open>
  The candidate pairs of one fingerprint class: the nested loops over \<open>nodeRange\<close> and
  \<open>fileRange\<close>. \<open>localroot\<close> is \<^verbatim>\<open>l->sync->localroot.get()\<close>.
\<close>

definition classElements ::
  "char \<Rightarrow> lnptr \<Rightarrow> (lnptr \<Rightarrow> localpath) \<Rightarrow> lnptr list \<Rightarrow> FsFile list \<Rightarrow> Element list" where
  "classElements sep localroot nodePathOf nodeRange fileRange =
     concat (map (\<lambda>l.
        if l \<noteq> localroot
        then concat (map (\<lambda>file.
               let score = computeReversePathMatchScore sep (nodePathOf l) (ff_path file)
               in if score > 0 then [\<lparr>el_score = score, el_fsid = ff_fsid file, el_l = l\<rparr>] else [])
             fileRange)
        else [])
      nodeRange)"

text \<open>
  \<^verbatim>\<open>std::sort\<close> with the comparator \<^verbatim>\<open>e1.score > e2.score\<close>. The order it leaves between
  elements of equal score is unspecified; here they keep their order. The statements proved
  for all inputs use of the sorted list only that it is sorted and holds the same elements,
  which is true of every such order; an evaluation on sample data shows the order chosen
  here.
\<close>

definition sortElements :: "Element list \<Rightarrow> Element list" where
  "sortElements es = sort_key (\<lambda>e. - el_score e) es"

text \<open>
  The greedy loop; the state is the heap with the fsid index, \<open>usedFsIds\<close> and
  \<open>assignmentCount\<close>.
\<close>

type_synonym assign_state = "(lnheap \<times> handlelocalnode_map) \<times> handle list \<times> nat"

definition assignStep :: "Element \<Rightarrow> assign_state \<Rightarrow> assign_state" where
  "assignStep e s =
     (case s of (hs, usedFsIds, assignmentCount) \<Rightarrow>
        if fsid (fst hs (el_l e)) = UNDEF \<and> el_fsid e \<notin> set usedFsIds
        then (setfsid (el_l e) (el_fsid e) hs, el_fsid e # usedFsIds, assignmentCount + 1)
        else s)"

definition assignLoop :: "Element list \<Rightarrow> assign_state \<Rightarrow> assign_state" where
  "assignLoop es s = fold assignStep es s"

text \<open>\<^verbatim>\<open>assignFilesystemIdsImpl\<close>: the loop over \<^verbatim>\<open>fingerprints.all()\<close>.\<close>

type_synonym impl_state =
  "FingerprintLocalNodeMap \<times> FingerprintFileMap \<times> (lnheap \<times> handlelocalnode_map) \<times> nat"

fun assignFilesystemIdsImpl_loop ::
  "SyncEnv \<Rightarrow> lnptr \<Rightarrow> (lnptr \<Rightarrow> localpath) \<Rightarrow> LightFileFingerprint list \<Rightarrow> impl_state \<Rightarrow> impl_state" where
  "assignFilesystemIdsImpl_loop env localroot nodePathOf [] s = s"
| "assignFilesystemIdsImpl_loop env localroot nodePathOf (fp # fps) (localnodes, files, hs, assignmentCount) =
     (let nodeRange = mm_equal_range (LightFileFingerprintCmp env) localnodes fp in
      if length nodeRange \<le> 0
      then assignFilesystemIdsImpl_loop env localroot nodePathOf fps (localnodes, files, hs, assignmentCount)
      else
        (let fileRange = mm_equal_range (LightFileFingerprintCmp env) files fp in
         if length fileRange \<le> 0
         then assignFilesystemIdsImpl_loop env localroot nodePathOf fps
                (mm_erase (LightFileFingerprintCmp env) fp localnodes, files, hs, assignmentCount)
         else
           (let elements = sortElements
                  (classElements (localseparator env) localroot nodePathOf nodeRange fileRange)
            in case assignLoop elements (hs, [], assignmentCount) of
                 (hs', usedFsIds, assignmentCount') \<Rightarrow>
                   assignFilesystemIdsImpl_loop env localroot nodePathOf fps
                     (mm_erase (LightFileFingerprintCmp env) fp localnodes,
                      mm_erase (LightFileFingerprintCmp env) fp files, hs', assignmentCount'))))"

definition assignFilesystemIdsImpl ::
  "SyncEnv \<Rightarrow> lnptr \<Rightarrow> (lnptr \<Rightarrow> localpath) \<Rightarrow> LightFileFingerprint list \<Rightarrow>
   FingerprintLocalNodeMap \<Rightarrow> FingerprintFileMap \<Rightarrow> lnheap \<times> handlelocalnode_map \<Rightarrow>
   nat \<times> (lnheap \<times> handlelocalnode_map)" where
  "assignFilesystemIdsImpl env localroot nodePathOf fingerprints localnodes files hs =
     (case assignFilesystemIdsImpl_loop env localroot nodePathOf fingerprints (localnodes, files, hs, 0) of
        (localnodes', files', hs', assignmentCount) \<Rightarrow> (assignmentCount, hs'))"

text \<open>
  \<^verbatim>\<open>assignFilesystemIds\<close>: the returned flag with the heap and the fsid index afterwards;
  \<open>None\<close> when the walk over the filesystem did not end within the fuel.
\<close>

definition assignFilesystemIds ::
  "nat \<Rightarrow> SyncEnv \<Rightarrow> LocalNode \<Rightarrow> localpath \<Rightarrow> lnheap \<times> handlelocalnode_map \<Rightarrow>
   (bool \<times> (lnheap \<times> handlelocalnode_map)) option" where
  "assignFilesystemIds fuel env localroot localdebris hs =
     (let rootpath = ln_localname (lnf localroot) in
      case fopen env rootpath of
        None \<Rightarrow> Some (False, hs)
      | Some fa \<Rightarrow>
          if fa_type fa \<noteq> FOLDERNODE then Some (False, hs)
          else if fa_mIsSymLink fa then Some (False, hs)
          else
            (case collectAllLocalNodes env localroot ([], [], fst hs, snd hs) of
               (fingerprints, localnodes, h1, fsidnodes1) \<Rightarrow>
                 if localnodes = [] then Some (True, (h1, fsidnodes1))
                 else
                   (case collectAllFiles fuel env localdebris rootpath (True, fingerprints, []) of
                      None \<Rightarrow> None
                    | Some (success, fingerprints', files) \<Rightarrow>
                        (case assignFilesystemIdsImpl env (ln_ptr (lnf localroot))
                                (getLocalPath (localseparator env) localroot)
                                fingerprints' localnodes files (h1, fsidnodes1) of
                           (assignmentCount, hs') \<Rightarrow> Some (success, hs')))))"

section \<open>The reconciler: data\<close>

text \<open>
  A cloud \<^verbatim>\<open>Node\<close> is only read by the functions below, so it is a tree value.
  \<open>n_mPendingChanges_empty\<close> is \<^verbatim>\<open>mPendingChanges.empty()\<close>.
\<close>

record NodeFields =
  n_nodehandle :: handle
  n_canonicalname :: string
  n_displayname :: string
  n_mPendingChanges_empty :: bool

datatype Node = Node (nf: NodeFields) (n_children: "Node list")

record FileFingerprint =
  fp_size :: m_off_t
  fp_mtime :: m_time_t
  fp_isvalid :: bool

record FSNode =
  fs_localname :: localpath
  fs_name :: string
  fs_type :: nodetype_t
  fs_fsid :: handle
  fs_isSymlink :: bool
  fs_shortname :: "localpath option"
  fs_fingerprint :: FileFingerprint

text \<open>
  The cloud slot of a row is a \<^verbatim>\<open>Node*\<close> that is null, the sentinel \<^verbatim>\<open>NAME_CONFLICT\<close>
  (the address \<^verbatim>\<open>~0u\<close>, behind which there is no node), or the address of a node.
\<close>

datatype cloud_ptr = CloudNull | NAME_CONFLICT | CloudNode Node

record syncRow =
  cloudNode :: cloud_ptr
  syncNode :: "LocalNode option"
  fsNode :: "FSNode option"

text \<open>
  Calls that leave this file (the client, the app, the constructor and the destructor of
  \<^verbatim>\<open>LocalNode\<close>) are recorded as events, in the order in which they are made.
  \<open>NewLocalNode parent path fs withFsid\<close> stands for \<^verbatim>\<open>new LocalNode\<close>, \<^verbatim>\<open>init\<close>, the
  \<^verbatim>\<open>setfsid\<close> made when the filesystem id is defined, \<^verbatim>\<open>treestate\<close> and \<^verbatim>\<open>statecacheadd\<close>.
\<close>

datatype event =
    StartXferPut lnptr handle
  | SyncupdatePut lnptr localpath
  | Putnodes handle string
  | DeleteLocalNode lnptr
  | NewLocalNode "lnptr option" localpath FSNode bool
  | FsLockRetry localpath

datatype fault = NullDeref | InvalidDeref

record SyncState =
  st_heap :: lnheap
  st_events :: "event list"
  st_quietTime :: dstime

text \<open>
  Modelled from the spec: \<^verbatim>\<open>NameCmp\<close> (not in this file), "the filesystem-specific name
  comparator (case-insensitive on case-preserving filesystems, case-sensitive elsewhere)".
  The comparator orders names by a normal form, \<open>nameKey\<close>: the name itself, or the name with
  its case folded. \<open>nameCmp_compare\<close> is \<^verbatim>\<open>NameCmp::compare\<close>; \<open>nameCmp\<close> is the call operator,
  which \<^verbatim>\<open>std::sort\<close> uses as its "less" test.
\<close>

record SyncClient =
  senv :: SyncEnv
  nameKey :: "string \<Rightarrow> string"
  node_syncable :: "Node \<Rightarrow> LocalNode \<Rightarrow> bool"
  waiter_ds :: dstime
  followsymlinks :: bool
  fopen_retry :: "localpath \<Rightarrow> bool"
  fsShortname :: "localpath \<Rightarrow> localpath option"
  fromName :: "string \<Rightarrow> localpath"
  isnetwork :: bool
  localdebris :: localpath
  FSNode_default :: FSNode

definition nameCmp_compare :: "SyncClient \<Rightarrow> string \<Rightarrow> string \<Rightarrow> int" where
  "nameCmp_compare c a b =
     (if nameKey c a < nameKey c b then - 1 else if nameKey c a = nameKey c b then 0 else 1)"

definition nameCmp :: "SyncClient \<Rightarrow> string \<Rightarrow> string \<Rightarrow> bool" where
  "nameCmp c a b = (nameCmp_compare c a b < 0)"

text \<open>
  \<^verbatim>\<open>std::sort\<close> with a "less" test: an insertion sort that keeps the order of equivalent
  elements (\<^verbatim>\<open>std::sort\<close> leaves that order unspecified). The statements proved for all
  inputs use of a sorted list only that it is sorted and holds the same elements, which is
  true of every such order; an evaluation on sample data shows the order chosen here.
\<close>

fun insort_by :: "('a \<Rightarrow> 'a \<Rightarrow> bool) \<Rightarrow> 'a \<Rightarrow> 'a list \<Rightarrow> 'a list" where
  "insort_by lt x [] = [x]"
| "insort_by lt x (y # ys) = (if lt y x then y # insort_by lt x ys else x # y # ys)"

definition sort_by :: "('a \<Rightarrow> 'a \<Rightarrow> bool) \<Rightarrow> 'a list \<Rightarrow> 'a list" where
  "sort_by lt xs = foldr (insort_by lt) xs []"

text \<open>
  Modelled from the spec: \<^verbatim>\<open>LocalNode::getKnownFSDetails\<close> (not in this file), which
  "synthesises an FsNode from cached fields".
\<close>

definition getKnownFSDetails :: "lnheap \<Rightarrow> LocalNode \<Rightarrow> FSNode" where
  "getKnownFSDetails h l =
     \<lparr>fs_localname = ln_localname (lnf l), fs_name = ln_name (lnf l), fs_type = ln_type (lnf l),
      fs_fsid = fsid (h (ln_ptr (lnf l))), fs_isSymlink = False,
      fs_shortname = ln_slocalname (lnf l),
      fs_fingerprint = \<lparr>fp_size = ln_size (lnf l), fp_mtime = ln_mtime (lnf l),
                         fp_isvalid = ln_isvalid (lnf l)\<rparr>\<rparr>"

text \<open>
  \<^verbatim>\<open>Sync::checkpathOne\<close>: the \<^verbatim>\<open>FSNode\<close> for one directory entry, and the events of the
  case in which the open fails with \<^verbatim>\<open>retry\<close> set (\<open>fopen_retry\<close> says for which paths a
  failed open does so).
  \<^verbatim>\<open>genfingerprint(fa)\<close> is taken to store the size and the time and to mark the fingerprint
  valid.
\<close>

definition checkpathOne :: "SyncClient \<Rightarrow> localpath \<Rightarrow> localpath \<Rightarrow> FSNode \<times> event list" where
  "checkpathOne c localPath leaf =
     (let result = (FSNode_default c)\<lparr>fs_localname := leaf, fs_name := toName (senv c) leaf\<rparr> in
      case fopen (senv c) localPath of
        Some fa \<Rightarrow>
          (let r1 = (if fa_mIsSymLink fa then result\<lparr>fs_isSymlink := True\<rparr> else result);
               r2 = r1\<lparr>fs_type := fa_type fa, fs_shortname := fsShortname c localPath,
                         fs_fsid := (if fa_fsidvalid fa then fa_fsid fa else 0)\<rparr>
           in if fa_type fa = FILENODE
              then (r2\<lparr>fs_fingerprint := \<lparr>fp_size = fa_size fa, fp_mtime = fa_mtime fa,
                                            fp_isvalid = True\<rparr>\<rparr>, [])
              else (r2, []))
      | None \<Rightarrow> (result, if fopen_retry c localPath then [FsLockRetry localPath] else []))"

text \<open>\<^verbatim>\<open>Sync::scanOne\<close>: the entries of one folder, without recursion.\<close>

definition scanOne :: "SyncClient \<Rightarrow> localpath \<Rightarrow> FSNode list \<times> event list" where
  "scanOne c localPath =
     (if isContainingPathOf (localseparator (senv c)) (localdebris c) localPath \<noteq> None then ([], [])
      else case fopen (senv c) localPath of
        None \<Rightarrow> ([], [])
      | Some fa \<Rightarrow>
          if fa_type fa \<noteq> FOLDERNODE then ([], [])
          else if \<not> dopen (senv c) localPath then ([], [])
          else
            (let results = concat (map (\<lambda>localname.
                     let p = appendWithSeparator (localseparator (senv c)) localPath localname
                     in if isContainingPathOf (localseparator (senv c)) (localdebris c) p = None
                        then [checkpathOne c p localname] else [])
                   (dnext (senv c) localPath (followsymlinks c)))
             in (map fst results, concat (map snd results))))"

section \<open>The reconciler: pairing the three lists\<close>

text \<open>
  \<open>equalCount lt xs\<close> is the distance that the inner \<^verbatim>\<open>while\<close> loops measure: starting at
  the current element, the number of elements that the current element is not "less" than.
\<close>

definition equalCount :: "('a \<Rightarrow> 'a \<Rightarrow> bool) \<Rightarrow> 'a list \<Rightarrow> nat" where
  "equalCount lt xs = (case xs of [] \<Rightarrow> 0 | x # _ \<Rightarrow> length (takeWhile (\<lambda>y. \<not> lt x y) xs))"

definition cloudCmpFS :: "SyncClient \<Rightarrow> FSNode \<Rightarrow> FSNode \<Rightarrow> bool" where
  "cloudCmpFS c a b = nameCmp c (fs_name a) (fs_name b)"

definition cloudCmpSync :: "SyncClient \<Rightarrow> LocalNode \<Rightarrow> LocalNode \<Rightarrow> bool" where
  "cloudCmpSync c a b = nameCmp c (ln_name (lnf a)) (ln_name (lnf b))"

definition localCmpNode :: "SyncClient \<Rightarrow> Node \<Rightarrow> Node \<Rightarrow> bool" where
  "localCmpNode c a b = nameCmp c (n_canonicalname (nf a)) (n_canonicalname (nf b))"

text \<open>
  The name by which \<^verbatim>\<open>localCmpRow\<close> compares a row: the sync node's, or else the filesystem
  entry's. A row with neither would be a null dereference; \<open>row_unnamed\<close> recognises it.
\<close>

definition row_unnamed :: "syncRow \<Rightarrow> bool" where
  "row_unnamed r = (syncNode r = None \<and> fsNode r = None)"

definition rowName :: "syncRow \<Rightarrow> string" where
  "rowName r =
     (case syncNode r of
        Some l \<Rightarrow> ln_name (lnf l)
      | None \<Rightarrow> (case fsNode r of Some f \<Rightarrow> fs_name f | None \<Rightarrow> []))"

definition localCmpRow :: "SyncClient \<Rightarrow> syncRow \<Rightarrow> syncRow \<Rightarrow> bool" where
  "localCmpRow c a b = nameCmp c (rowName a) (rowName b)"

definition first_of :: "'a list \<Rightarrow> 'a option" where
  "first_of xs = (case xs of [] \<Rightarrow> None | x # _ \<Rightarrow> Some x)"

lemma nameCmp_irrefl [simp]: "\<not> nameCmp c a a"
  by (simp add: nameCmp_def nameCmp_compare_def)

lemma equalCount_pos: "(\<And>x. \<not> lt x x) \<Longrightarrow> xs \<noteq> [] \<Longrightarrow> 0 < equalCount lt xs"
  by (cases xs) (simp_all add: equalCount_def)

lemma equalCount_le: "equalCount lt xs \<le> length xs"
proof (cases xs)
  case Nil
  then show ?thesis by (simp add: equalCount_def)
next
  case (Cons x ys)
  have "length (takeWhile (\<lambda>y. \<not> lt x y) xs) \<le> length xs" by (rule length_takeWhile_le)
  with Cons show ?thesis by (simp add: equalCount_def del: takeWhile.simps)
qed

text \<open>
  The first pairing loop, over the sorted \<open>fsChildren\<close> and \<open>syncChildren\<close>; the arguments are
  what lies from \<open>fsIter\<close> and from \<open>syIter\<close> on.
\<close>

definition pairFsSync_this :: "SyncClient \<Rightarrow> FSNode list \<Rightarrow> LocalNode list \<Rightarrow> FSNode option \<times> LocalNode option" where
  "pairFsSync_this c fs sy =
     (case (first_of fs, first_of sy) of
        (Some f, Some l) \<Rightarrow>
          (let relationship = nameCmp_compare c (fs_name f) (ln_name (lnf l)) in
           if relationship < 0 then (Some f, None)
           else if relationship > 0 then (None, Some l)
           else (Some f, Some l))
      | (thisFS, thisSY) \<Rightarrow> (thisFS, thisSY))"

function pairFsSync :: "SyncClient \<Rightarrow> FSNode list \<Rightarrow> LocalNode list \<Rightarrow> syncRow list" where
  "pairFsSync c fs sy =
     (let fsEqualNodeCount = equalCount (cloudCmpFS c) fs;
          syEqualNodeCount = equalCount (cloudCmpSync c) sy;
          thisFS = fst (pairFsSync_this c fs sy);
          thisSY = snd (pairFsSync_this c fs sy)
      in if thisFS = None \<and> thisSY = None then []
         else
           (if thisFS \<noteq> None \<and> fsEqualNodeCount > 1
            then \<lparr>cloudNode = NAME_CONFLICT, syncNode = thisSY, fsNode = thisFS\<rparr>
            else \<lparr>cloudNode = CloudNull, syncNode = thisSY, fsNode = thisFS\<rparr>)
           # pairFsSync c (if thisFS \<noteq> None then drop fsEqualNodeCount fs else fs)
                          (if thisSY \<noteq> None then drop syEqualNodeCount sy else sy))"
  by pat_completeness auto

lemma pairFsSync_this_fs: "fst (pairFsSync_this c fs sy) \<noteq> None \<Longrightarrow> fs \<noteq> []"
  by (cases fs; cases sy) (auto simp: pairFsSync_this_def first_of_def Let_def split: if_splits)

lemma pairFsSync_this_sy: "snd (pairFsSync_this c fs sy) \<noteq> None \<Longrightarrow> sy \<noteq> []"
  by (cases fs; cases sy) (auto simp: pairFsSync_this_def first_of_def Let_def split: if_splits)

lemma drop_equalCount_less:
  "(\<And>x. \<not> lt x x) \<Longrightarrow> xs \<noteq> [] \<Longrightarrow> length (drop (equalCount lt xs) xs) < length xs"
  using equalCount_pos [of lt xs] by simp

termination pairFsSync
proof (relation "measure (\<lambda>(c, fs, sy). length fs + length sy)", goal_cases)
  case 1 show ?case by simp
next
  case (2 c fs sy n m thisFS thisSY)
  have a: "thisFS \<noteq> None \<Longrightarrow> length (drop n fs) < length fs"
    using 2 pairFsSync_this_fs [of c fs sy] drop_equalCount_less [of "cloudCmpFS c" fs]
    by (simp add: cloudCmpFS_def)
  have b: "thisSY \<noteq> None \<Longrightarrow> length (drop m sy) < length sy"
    using 2 pairFsSync_this_sy [of c fs sy] drop_equalCount_less [of "cloudCmpSync c" sy]
    by (simp add: cloudCmpSync_def)
  from 2 a b show ?case by (auto simp del: length_drop)
qed

declare pairFsSync.simps [simp del]

text \<open>
  The second pairing loop, over the sorted \<open>cloudChildren\<close> and the sorted rows (those below
  \<open>rowLast\<close>). The result is the rows as they stand after the loop and the rows that
  \<^verbatim>\<open>emplace_back\<close> appended. \<open>relationship\<close> is the \<^verbatim>\<open>bool\<close> result of the call operator
  converted to \<^verbatim>\<open>int\<close>, so it is 0 or 1.
\<close>

definition cloud_ptr_of :: "Node option \<Rightarrow> cloud_ptr" where
  "cloud_ptr_of n = (case n of None \<Rightarrow> CloudNull | Some x \<Rightarrow> CloudNode x)"

definition pairCloud_this :: "SyncClient \<Rightarrow> Node list \<Rightarrow> syncRow list \<Rightarrow> Node option \<times> syncRow option" where
  "pairCloud_this c cl rows =
     (case (first_of cl, first_of rows) of
        (Some n, Some r) \<Rightarrow>
          (case syncNode r of
             Some l \<Rightarrow>
               (let relationship = (if nameCmp c (n_canonicalname (nf n)) (ln_name (lnf l))
                                    then 1 else 0 :: int) in
                if relationship < 0 then (Some n, None)
                else if relationship > 0 then (None, Some r)
                else (Some n, Some r))
           | None \<Rightarrow> (Some n, Some r))
      | (thisCl, thisRow) \<Rightarrow> (thisCl, thisRow))"

function pairCloudRows :: "SyncClient \<Rightarrow> Node list \<Rightarrow> syncRow list \<Rightarrow> syncRow list \<times> syncRow list" where
  "pairCloudRows c cl rows =
     (let cloudEqualNodeCount = equalCount (localCmpNode c) cl;
          rowDistance = equalCount (localCmpRow c) rows;
          thisCl = fst (pairCloud_this c cl rows);
          thisRow = snd (pairCloud_this c cl rows)
      in if thisCl = None \<and> thisRow = None then (rows, [])
         else
           (let rest = pairCloudRows c (if thisCl \<noteq> None then drop cloudEqualNodeCount cl else cl)
                                       (if thisRow \<noteq> None then drop rowDistance rows else rows);
                passed = (if thisRow \<noteq> None then take rowDistance rows else [])
            in if thisCl \<noteq> None \<and> cloudEqualNodeCount > 1
               then (passed @ fst rest, snd rest)
               else (case thisRow of
                       Some r \<Rightarrow>
                         ((if cloudNode r \<noteq> NAME_CONFLICT
                           then r\<lparr>cloudNode := cloud_ptr_of thisCl\<rparr> else r) # tl passed @ fst rest,
                          snd rest)
                     | None \<Rightarrow>
                         (passed @ fst rest,
                          \<lparr>cloudNode = cloud_ptr_of thisCl, syncNode = None, fsNode = None\<rparr> # snd rest))))"
  by pat_completeness auto

lemma pairCloud_this_cl: "fst (pairCloud_this c cl rows) \<noteq> None \<Longrightarrow> cl \<noteq> []"
  by (cases cl; cases rows)
     (auto simp: pairCloud_this_def first_of_def Let_def split: if_splits option.splits)

lemma pairCloud_this_row: "snd (pairCloud_this c cl rows) \<noteq> None \<Longrightarrow> rows \<noteq> []"
  by (cases cl; cases rows)
     (auto simp: pairCloud_this_def first_of_def Let_def split: if_splits option.splits)

termination pairCloudRows
proof (relation "measure (\<lambda>(c, cl, rows). length cl + length rows)", goal_cases)
  case 1 show ?case by simp
next
  case (2 c cl rows n m thisCl thisRow)
  have a: "thisCl \<noteq> None \<Longrightarrow> length (drop n cl) < length cl"
    using 2 pairCloud_this_cl [of c cl rows] drop_equalCount_less [of "localCmpNode c" cl]
    by (simp add: localCmpNode_def)
  have b: "thisRow \<noteq> None \<Longrightarrow> length (drop m rows) < length rows"
    using 2 pairCloud_this_row [of c cl rows] drop_equalCount_less [of "localCmpRow c" rows]
    by (simp add: localCmpRow_def)
  from 2 a b show ?case by (auto simp del: length_drop)
qed

declare pairCloudRows.simps [simp del]

section \<open>The reconciler: \<^verbatim>\<open>syncItem\<close> and \<^verbatim>\<open>recursiveSync\<close>\<close>

text \<open>
  \<^verbatim>\<open>Sync::syncItem\<close>. The result is the row, which the function may change, and the state.
  The log line at its head is left out, and so is the value returned, which is \<^verbatim>\<open>true\<close> on
  every path. Creating a node for a new local entry moves the short
  name out of the row's filesystem entry (\<^verbatim>\<open>std::move(row.fsNode->shortname)\<close>), which is
  left without one; the event carries the entry as it was. The nodes created and deleted are
  recorded as events only: the tree, the heap and the index are as before the call.
\<close>

definition add_events :: "event list \<Rightarrow> SyncState \<Rightarrow> SyncState" where
  "add_events es st = st\<lparr>st_events := st_events st @ es\<rparr>"

definition syncItem ::
  "SyncClient \<Rightarrow> syncRow \<Rightarrow> syncRow \<Rightarrow> localpath \<Rightarrow> SyncState \<Rightarrow> fault + (syncRow \<times> SyncState)" where
  "syncItem c row parentRow fullPath st =
     (case syncNode row of
        Some sn \<Rightarrow>
          (case fsNode row of
             Some f \<Rightarrow>
               if cloudNode row \<noteq> CloudNull then Inr (row, st)
               else if ln_syncedCloudNodeHandle (lnf sn) = UNDEF then
                 (if fs_type f = FILENODE then
                    (if \<not> ln_transfer (lnf sn) \<and> cloudNode parentRow \<noteq> CloudNull then
                       (case cloudNode parentRow of
                          CloudNode p \<Rightarrow>
                            Inr (row, add_events
                                   [StartXferPut (ln_ptr (lnf sn)) (n_nodehandle (nf p)),
                                    SyncupdatePut (ln_ptr (lnf sn)) fullPath] st)
                        | NAME_CONFLICT \<Rightarrow> Inl InvalidDeref
                        | CloudNull \<Rightarrow> Inr (row, st))
                     else Inr (row, st))
                  else
                    (case cloudNode parentRow of
                       CloudNode p \<Rightarrow>
                         Inr (row, add_events [Putnodes (n_nodehandle (nf p)) (ln_name (lnf sn))] st)
                     | NAME_CONFLICT \<Rightarrow> Inl InvalidDeref
                     | CloudNull \<Rightarrow> Inl NullDeref))
               else Inr (row, st)
           | None \<Rightarrow>
               if cloudNode row \<noteq> CloudNull then Inr (row, st)
               else Inr (row\<lparr>syncNode := None\<rparr>, add_events [DeleteLocalNode (ln_ptr (lnf sn))] st))
      | None \<Rightarrow>
          (case fsNode row of
             Some f \<Rightarrow>
               if cloudNode row \<noteq> CloudNull then Inr (row, st)
               else Inr (row\<lparr>fsNode := Some (f\<lparr>fs_shortname := None\<rparr>)\<rparr>,
                         add_events
                            [NewLocalNode (map_option (\<lambda>l. ln_ptr (lnf l)) (syncNode parentRow))
                               fullPath f (fs_fsid f \<noteq> UNDEF)] st)
           | None \<Rightarrow> Inr (row, st)))"

text \<open>
  The return statements of \<^verbatim>\<open>recursiveSync\<close>, in source order. The result of a call says
  which one was taken.
\<close>

datatype return_site =
    RetNothingToDo | RetNoSyncNode | RetPendingChanges | RetScanTooSoon | RetChildFailed | RetDone

type_synonym rs_result = "(fault + (bool \<times> return_site \<times> SyncState)) option"

text \<open>\<^verbatim>\<open>row.cloudNode && !row.cloudNode->mPendingChanges.empty()\<close>\<close>

definition cloudPending :: "cloud_ptr \<Rightarrow> fault + bool" where
  "cloudPending p =
     (case p of
        CloudNull \<Rightarrow> Inr False
      | NAME_CONFLICT \<Rightarrow> Inl InvalidDeref
      | CloudNode n \<Rightarrow> Inr (\<not> n_mPendingChanges_empty (nf n)))"

text \<open>The two blocks that propagate the full-scan and full-sync flags to the children.\<close>

definition propagateFlags :: "LocalNode \<Rightarrow> lnheap \<Rightarrow> lnheap" where
  "propagateFlags sn h =
     (let p = ln_ptr (lnf sn);
          h1 = (if scanAgain (h p) = SYNCTREE_ACTION_HERE_AND_BELOW
                then (fold (\<lambda>ch g. g(ln_ptr (lnf ch) := (g (ln_ptr (lnf ch)))
                                \<lparr>scanAgain := SYNCTREE_ACTION_HERE_AND_BELOW\<rparr>)) (children sn) h)
                       (p := (fold (\<lambda>ch g. g(ln_ptr (lnf ch) := (g (ln_ptr (lnf ch)))
                                \<lparr>scanAgain := SYNCTREE_ACTION_HERE_AND_BELOW\<rparr>)) (children sn) h p)
                                \<lparr>scanAgain := SYNCTREE_ACTION_HERE_ONLY\<rparr>)
                else h)
      in if syncAgain (h1 p) = SYNCTREE_ACTION_HERE_AND_BELOW
         then (fold (\<lambda>ch g. g(ln_ptr (lnf ch) := (g (ln_ptr (lnf ch)))
                         \<lparr>syncAgain := SYNCTREE_ACTION_HERE_AND_BELOW\<rparr>)) (children sn) h1)
                (p := (fold (\<lambda>ch g. g(ln_ptr (lnf ch) := (g (ln_ptr (lnf ch)))
                         \<lparr>syncAgain := SYNCTREE_ACTION_HERE_AND_BELOW\<rparr>)) (children sn) h1 p)
                         \<lparr>syncAgain := SYNCTREE_ACTION_HERE_ONLY\<rparr>)
         else h1)"

text \<open>
  The block that fills \<open>fsChildren\<close>: \<open>None\<close> is the early return of a folder scanned less
  than 20 deciseconds ago.
\<close>

definition getFsChildren ::
  "SyncClient \<Rightarrow> LocalNode \<Rightarrow> localpath \<Rightarrow> SyncState \<Rightarrow> (FSNode list \<times> SyncState) option" where
  "getFsChildren c sn localPath st =
     (let p = ln_ptr (lnf sn); h = st_heap st in
      if scanAgain (h p) = SYNCTREE_ACTION_HERE_ONLY then
        (if waiter_ds c - lastScanTime (h p) < 20 then None
         else
           (case scanOne c localPath of
              (fsChildren, evs) \<Rightarrow>
                Some (fsChildren,
                      add_events evs
                        (st\<lparr>st_heap := h(p := (h p)\<lparr>lastScanTime := waiter_ds c,
                                                    scanAgain := SYNCTREE_RESOLVED,
                                                    syncAgain := SYNCTREE_ACTION_HERE_ONLY\<rparr>)\<rparr>))))
      else Some (map (getKnownFSDetails h) (children sn), st))"

text \<open>\<^verbatim>\<open>std::copy_if\<close> over \<^verbatim>\<open>row.cloudNode->children\<close>.\<close>

definition getCloudChildren :: "SyncClient \<Rightarrow> cloud_ptr \<Rightarrow> LocalNode \<Rightarrow> fault + Node list" where
  "getCloudChildren c p sn =
     (case p of
        CloudNull \<Rightarrow> Inl NullDeref
      | NAME_CONFLICT \<Rightarrow> Inl InvalidDeref
      | CloudNode n \<Rightarrow> Inr (filter (\<lambda>ch. node_syncable c ch sn) (n_children n)))"

text \<open>The rows of the current directory: both sorts and both pairing loops.\<close>

definition buildChildRows :: "SyncClient \<Rightarrow> FSNode list \<Rightarrow> LocalNode list \<Rightarrow> Node list \<Rightarrow> syncRow list" where
  "buildChildRows c fsChildren syncChildren cloudChildren =
     (let rows1 = pairFsSync c (sort_by (cloudCmpFS c) fsChildren) (sort_by (cloudCmpSync c) syncChildren);
          r = pairCloudRows c (sort_by (localCmpNode c) cloudChildren) (sort_by (localCmpRow c) rows1)
      in fst r @ snd r)"

text \<open>The path of a child row, as the \<^verbatim>\<open>if\<close> chain under \<^verbatim>\<open>ScopedLengthRestore\<close> builds it.\<close>

definition childPath :: "SyncClient \<Rightarrow> localpath \<Rightarrow> syncRow \<Rightarrow> localpath" where
  "childPath c localPath childRow =
     (case fsNode childRow of
        Some f \<Rightarrow> appendWithSeparator (localseparator (senv c)) localPath (fs_localname f)
      | None \<Rightarrow>
          (case syncNode childRow of
             Some l \<Rightarrow> appendWithSeparator (localseparator (senv c)) localPath (ln_localname (lnf l))
           | None \<Rightarrow>
               (case cloudNode childRow of
                  CloudNode n \<Rightarrow>
                    appendWithSeparator (localseparator (senv c)) localPath (fromName c (n_displayname (nf n)))
                | _ \<Rightarrow> localPath)))"

text \<open>
  The condition under which the loop calls \<^verbatim>\<open>recursiveSync\<close> on a child row. It reads
  \<open>row\<close>, the row of the current directory.
\<close>

definition recurseCondition :: "syncRow \<Rightarrow> bool" where
  "recurseCondition row =
     (cloudNode row \<noteq> CloudNull \<and> syncNode row \<noteq> None \<and> fsNode row \<noteq> None \<and>
      (case syncNode row of Some sn \<Rightarrow> ln_type (lnf sn) \<noteq> FILENODE | None \<Rightarrow> False))"

text \<open>
  The loop over \<open>childRows\<close>. \<open>rec\<close> is the recursive call. \<open>parent\<close> is the address of
  \<open>row.syncNode\<close>, whose \<open>scanAgain\<close> is raised when a child returns false.
\<close>

fun dispatchRows ::
  "(syncRow \<Rightarrow> localpath \<Rightarrow> SyncState \<Rightarrow> rs_result) \<Rightarrow> SyncClient \<Rightarrow> syncRow \<Rightarrow> lnptr \<Rightarrow>
   localpath \<Rightarrow> syncRow list \<Rightarrow> SyncState \<Rightarrow> rs_result" where
  "dispatchRows rec c row parent localPath [] st = Some (Inr (True, RetDone, st))"
| "dispatchRows rec c row parent localPath (childRow # rest) st =
     (if cloudNode childRow = NAME_CONFLICT then dispatchRows rec c row parent localPath rest st
      else
        (case syncItem c childRow row (childPath c localPath childRow) st of
           Inl f \<Rightarrow> Some (Inl f)
         | Inr (childRow', st1) \<Rightarrow>
             if recurseCondition row then
               (case rec childRow' (childPath c localPath childRow) st1 of
                  None \<Rightarrow> None
                | Some (Inl f) \<Rightarrow> Some (Inl f)
                | Some (Inr (ok, site, st2)) \<Rightarrow>
                    if \<not> ok
                    then Some (Inr (False, RetChildFailed,
                           st2\<lparr>st_heap := (st_heap st2)(parent := (st_heap st2 parent)
                              \<lparr>scanAgain := treeaction_max (scanAgain (st_heap st2 parent))
                                              SYNCTREE_ACTION_HERE_ONLY\<rparr>)\<rparr>))
                    else dispatchRows rec c row parent localPath rest st2)
             else dispatchRows rec c row parent localPath rest st1))"

text \<open>
  \<^verbatim>\<open>Sync::recursiveSync\<close>. The recursion follows the rows, which are built from what the
  filesystem and the cloud deliver, so it carries fuel; \<open>None\<close> is a run that did not end
  within it. The first test reads \<^verbatim>\<open>row.syncNode->syncAgain\<close>: with a null
  \<open>row.syncNode\<close> that is the fault \<open>NullDeref\<close>.
\<close>

fun recursiveSync :: "nat \<Rightarrow> SyncClient \<Rightarrow> syncRow \<Rightarrow> localpath \<Rightarrow> SyncState \<Rightarrow> rs_result" where
  "recursiveSync 0 c row localPath st = None"
| "recursiveSync (Suc n) c row localPath st =
     (case syncNode row of
        None \<Rightarrow> Some (Inl NullDeref)
      | Some sn \<Rightarrow>
          if syncAgain (st_heap st (ln_ptr (lnf sn))) = SYNCTREE_RESOLVED \<and>
             scanAgain (st_heap st (ln_ptr (lnf sn))) = SYNCTREE_RESOLVED
          then Some (Inr (True, RetNothingToDo, st))
          else if syncNode row = None then Some (Inr (True, RetNoSyncNode, st))
          else
            (case cloudPending (cloudNode row) of
               Inl f \<Rightarrow> Some (Inl f)
             | Inr True \<Rightarrow> Some (Inr (True, RetPendingChanges, st))
             | Inr False \<Rightarrow>
                 (case getFsChildren c sn localPath (st\<lparr>st_heap := propagateFlags sn (st_heap st)\<rparr>) of
                    None \<Rightarrow> Some (Inr (True, RetScanTooSoon, st\<lparr>st_heap := propagateFlags sn (st_heap st)\<rparr>))
                  | Some (fsChildren, st1) \<Rightarrow>
                      (case getCloudChildren c (cloudNode row) sn of
                         Inl f \<Rightarrow> Some (Inl f)
                       | Inr cloudChildren \<Rightarrow>
                           (let childRows = buildChildRows c fsChildren (children sn) cloudChildren;
                                st2 = st1\<lparr>st_heap := (st_heap st1)(ln_ptr (lnf sn) :=
                                        (st_heap st1 (ln_ptr (lnf sn)))\<lparr>scanAgain := SYNCTREE_RESOLVED\<rparr>)\<rparr>
                            in dispatchRows (recursiveSync n c) c row (ln_ptr (lnf sn)) localPath childRows st2)))))"

section \<open>Notifications: \<^verbatim>\<open>localnodebypath\<close> and \<^verbatim>\<open>procscanq\<close>\<close>

text \<open>
  Modelled from the spec: \<^verbatim>\<open>LocalPath::nextPathComponent\<close> (not in this file), which
  "advances a cursor across the next separator-delimited component; idempotent at end".
  The result is the component with the new cursor, or \<open>None\<close> at the end of the path.
\<close>

definition nextPathComponent :: "char \<Rightarrow> localpath \<Rightarrow> nat \<Rightarrow> (localpath \<times> nat) option" where
  "nextPathComponent sep path subpathIndex =
     (let start = subpathIndex + length (takeWhile (\<lambda>ch. ch = sep) (drop subpathIndex path)) in
      if start \<ge> length path then None
      else (let component = takeWhile (\<lambda>ch. ch \<noteq> sep) (drop start path)
            in Some (component, start + length component)))"

lemma nextPathComponent_advances:
  "nextPathComponent sep path i = Some (component, j) \<Longrightarrow> i < j \<and> j \<le> length path"
proof -
  assume a: "nextPathComponent sep path i = Some (component, j)"
  define start where "start = i + length (takeWhile (\<lambda>ch. ch = sep) (drop i path))"
  from a have lt: "start < length path"
    and j: "j = start + length (takeWhile (\<lambda>ch. ch \<noteq> sep) (drop start path))"
    by (auto simp: nextPathComponent_def Let_def start_def split: if_splits)
  have le: "length (takeWhile (\<lambda>ch. ch = sep) (drop i path)) \<le> length (drop i path)"
    by (rule length_takeWhile_le)
  have ne: "path ! start \<noteq> sep"
  proof (cases "length (takeWhile (\<lambda>ch. ch = sep) (drop i path)) < length (drop i path)")
    case True
    then have "\<not> (drop i path ! length (takeWhile (\<lambda>ch. ch = sep) (drop i path)) = sep)"
      by (rule nth_length_takeWhile)
    moreover have "drop i path ! length (takeWhile (\<lambda>ch. ch = sep) (drop i path)) = path ! start"
      using lt by (simp add: start_def)
    ultimately show ?thesis by simp
  next
    case False
    with le have "start = i + length (drop i path)" by (simp add: start_def)
    with lt show ?thesis by simp
  qed
  from lt have d: "drop start path = path ! start # drop (Suc start) path"
    by (simp add: Cons_nth_drop_Suc)
  have "0 < length (takeWhile (\<lambda>ch. ch \<noteq> sep) (drop start path))"
    by (subst d) (simp add: ne)
  moreover have "length (takeWhile (\<lambda>ch. ch \<noteq> sep) (drop start path)) \<le> length (drop start path)"
    by (rule length_takeWhile_le)
  ultimately show ?thesis using j lt by (auto simp: start_def)
qed

text \<open>
  The lookup of a component among the children: \<^verbatim>\<open>children.find\<close>, and \<^verbatim>\<open>schildren.find\<close>
  when that fails.
\<close>

definition findChild :: "LocalNode \<Rightarrow> localpath \<Rightarrow> LocalNode option" where
  "findChild l component =
     (case find (\<lambda>ch. ln_localname (lnf ch) = component) (children l) of
        Some ch \<Rightarrow> Some ch
      | None \<Rightarrow> find (\<lambda>ch. ln_slocalname (lnf ch) = Some component) (children l))"

text \<open>
  The \<^verbatim>\<open>while\<close> loop of \<^verbatim>\<open>Sync::localnodebypath\<close>. The result is the returned node, what
  is stored through \<open>parent\<close> (\<open>None\<close> if nothing is), and the residual path stored through
  \<open>outpath\<close>.
\<close>

function localnodebypath_loop ::
  "char \<Rightarrow> localpath \<Rightarrow> nat \<Rightarrow> LocalNode \<Rightarrow> LocalNode option \<Rightarrow>
   LocalNode option \<times> LocalNode option \<times> localpath" where
  "localnodebypath_loop sep localpath subpathIndex l parent =
     (case nextPathComponent sep localpath subpathIndex of
        None \<Rightarrow> (Some l, parent, [])
      | Some (component, subpathIndex') \<Rightarrow>
          (case findChild l component of
             None \<Rightarrow>
               (None, Some l,
                let remainder = drop subpathIndex' localpath
                in if remainder \<noteq> [] then appendWithSeparator sep component remainder
                   else component)
           | Some ch \<Rightarrow> localnodebypath_loop sep localpath subpathIndex' ch (Some l)))"
  by pat_completeness auto
termination
  by (relation "measure (\<lambda>(sep, localpath, subpathIndex, l, parent). length localpath - subpathIndex)")
     (auto dest: nextPathComponent_advances)

declare localnodebypath_loop.simps [simp del]

definition localnodebypath ::
  "SyncClient \<Rightarrow> LocalNode \<Rightarrow> LocalNode option \<Rightarrow> localpath \<Rightarrow>
   LocalNode option \<times> LocalNode option \<times> localpath" where
  "localnodebypath c localroot l localpath =
     (case l of
        None \<Rightarrow>
          (case isContainingPathOf (localseparator (senv c)) (ln_localname (lnf localroot)) localpath of
             None \<Rightarrow> (None, None, [])
           | Some subpathIndex \<Rightarrow>
               localnodebypath_loop (localseparator (senv c)) localpath subpathIndex localroot None)
      | Some l' \<Rightarrow> localnodebypath_loop (localseparator (senv c)) localpath 0 l' None)"

text \<open>
  Modelled from the spec: \<^verbatim>\<open>LocalNode::setFutureScan\<close> and \<^verbatim>\<open>setFutureSync\<close> (not in this
  file): the "monotonic max of {resolved < here-only < here-and-below}".
\<close>

definition setFutureScan :: "lnptr \<Rightarrow> treeaction \<Rightarrow> lnheap \<Rightarrow> lnheap" where
  "setFutureScan p a h = h(p := (h p)\<lparr>scanAgain := treeaction_max (scanAgain (h p)) a\<rparr>)"

definition setFutureSync :: "lnptr \<Rightarrow> treeaction \<Rightarrow> lnheap \<Rightarrow> lnheap" where
  "setFutureSync p a h = h(p := (h p)\<lparr>syncAgain := treeaction_max (syncAgain (h p)) a\<rparr>)"

text \<open>
  A notification names a node by a \<^verbatim>\<open>LocalNode*\<close> that is the sentinel \<^verbatim>\<open>~0\<close>, null, or
  the address of a node.
\<close>

datatype notif_node = NotifSkip | NotifNull | NotifNode LocalNode

record Notification =
  nt_localnode :: notif_node
  nt_path :: localpath
  nt_timestamp :: dstime

definition SCANNING_DELAY_DS :: dstime where "SCANNING_DELAY_DS = 5"
definition EXTRA_SCANNING_DELAY_DS :: dstime where "EXTRA_SCANNING_DELAY_DS = 150"

text \<open>\<^verbatim>\<open>Sync::procscanq\<close>: the loop that pops the notifications of one queue.\<close>

fun procscanq :: "SyncClient \<Rightarrow> LocalNode \<Rightarrow> Notification list \<Rightarrow> SyncState \<Rightarrow> fault + SyncState" where
  "procscanq c localroot [] st = Inr st"
| "procscanq c localroot (notification # q) st =
     (if nt_localnode notification \<noteq> NotifSkip then
        (let l = (case nt_localnode notification of NotifNode x \<Rightarrow> Some x | _ \<Rightarrow> None) in
         case localnodebypath c localroot l (nt_path notification) of
           (Some deepest, parent, remainder) \<Rightarrow>
             (let a = (if remainder = [] then SYNCTREE_ACTION_HERE_ONLY
                       else SYNCTREE_ACTION_HERE_AND_BELOW);
                  h1 = setFutureSync (ln_ptr (lnf deepest)) a
                         (setFutureScan (ln_ptr (lnf deepest)) a (st_heap st))
              in if isnetwork c then
                   (case l of
                      None \<Rightarrow> Inl NullDeref
                    | Some x \<Rightarrow>
                        procscanq c localroot q
                          (st\<lparr>st_heap := h1,
                              st_quietTime := waiter_ds c +
                                (if ln_type (lnf x) = FILENODE then EXTRA_SCANNING_DELAY_DS
                                 else SCANNING_DELAY_DS)\<rparr>))
                 else procscanq c localroot q
                        (st\<lparr>st_heap := h1, st_quietTime := waiter_ds c + SCANNING_DELAY_DS\<rparr>))
         | (None, parent, remainder) \<Rightarrow> procscanq c localroot q st)
      else procscanq c localroot q st)"

section \<open>Notions used in the statements\<close>

text \<open>
  The invariant of the loop of the score. After \<open>index\<close> rounds the two reversed paths agree
  on their first \<open>index\<close> bytes; these bytes are a part \<open>pre\<close> that is empty or ends in a
  separator, holding \<open>separatorBias\<close> separators, followed by \<open>accumulated\<close>, which holds none.
\<close>

definition rpms_inv :: "char \<Rightarrow> localpath \<Rightarrow> localpath \<Rightarrow> nat \<times> nat \<times> string \<Rightarrow> bool" where
  "rpms_inv sep p1 p2 s = (case s of (i, b, acc) \<Rightarrow>
     i \<le> length p1 \<and> i \<le> length p2 \<and> take i (rev p1) = take i (rev p2) \<and>
     (\<exists>pre. take i (rev p1) = pre @ acc \<and> (pre = [] \<or> last pre = sep) \<and> sep \<notin> set acc \<and>
            b = count_list pre sep))"




text \<open>
  \<open>node_ptrs\<close> lists the nodes that \<^verbatim>\<open>collectAllLocalNodes\<close> visits: it does not descend
  below a file node. \<open>cleared\<close> and \<open>unindexed\<close> describe the heap and the index after the
  fsids of a set of nodes have been invalidated. \<open>cs_heap\<close>, \<open>cs_index\<close> and \<open>is_hs\<close> select the
  heap and the index from the states of the loops.
\<close>

fun node_ptrs :: "LocalNode \<Rightarrow> lnptr list" where
  "node_ptrs (LocalNode f cs) =
     ln_ptr f # (if ln_type f = FILENODE then [] else concat (map node_ptrs cs))"

definition cleared :: "lnheap \<Rightarrow> lnptr set \<Rightarrow> lnheap" where
  "cleared h P = (\<lambda>p. if p \<in> P then (h p)\<lparr>fsid := UNDEF, fsid_it := None\<rparr> else h p)"

definition unindexed :: "lnheap \<Rightarrow> handlelocalnode_map \<Rightarrow> lnptr set \<Rightarrow> handlelocalnode_map" where
  "unindexed h idx P = (\<lambda>k. if \<exists>p\<in>P. fsid_it (h p) = Some k then None else idx k)"

definition cs_heap :: "collect_state \<Rightarrow> lnheap" where "cs_heap s = fst (snd (snd s))"

definition cs_index :: "collect_state \<Rightarrow> handlelocalnode_map" where "cs_index s = snd (snd (snd s))"

definition is_hs :: "impl_state \<Rightarrow> lnheap \<times> handlelocalnode_map" where "is_hs s = fst (snd (snd s))"

text \<open>
  \<open>fs_walk_ends d\<close>: the walk of \<^verbatim>\<open>collectAllFiles\<close> from a path ends within depth \<open>d\<close>.
\<close>

fun fs_walk_ends :: "nat \<Rightarrow> SyncEnv \<Rightarrow> localpath \<Rightarrow> localpath \<Rightarrow> bool" where
  "fs_walk_ends 0 env debris localpath = False"
| "fs_walk_ends (Suc d) env debris localpath =
     (case fopen env localpath of
        None \<Rightarrow> True
      | Some fa \<Rightarrow>
          if fa_mIsSymLink fa \<or> \<not> fa_fsidvalid fa \<or> fa_type fa \<noteq> FOLDERNODE then True
          else (\<forall>p\<in>set (collectAllPathsInFolder env localpath debris).
                  fs_walk_ends d env debris p))"

text \<open>
  What is compared of a result of \<^verbatim>\<open>recursiveSync\<close>: the fault, or the returned flag, the
  return site and the events.
\<close>

definition rs_outcome :: "rs_result \<Rightarrow> (fault + bool \<times> return_site \<times> event list) option" where
  "rs_outcome r = map_option (map_sum id (\<lambda>(res, site, st). (res, site, st_events st))) r"

text \<open>
  \<open>fsKey\<close> is the normal form of the name of a filesystem entry; \<open>rowHasFsKey c k\<close> holds of
  a row that carries a filesystem entry of normal form \<open>k\<close>.
\<close>

definition fsKey :: "SyncClient \<Rightarrow> FSNode \<Rightarrow> string" where
  "fsKey c f = nameKey c (fs_name f)"

definition rowHasFsKey :: "SyncClient \<Rightarrow> string \<Rightarrow> syncRow \<Rightarrow> bool" where
  "rowHasFsKey c k r = (case fsNode r of Some g \<Rightarrow> fsKey c g = k | None \<Rightarrow> False)"

text \<open>
  \<open>fs_rows_ok\<close> is what the first pairing loop establishes for its rows: every name among the
  filesystem entries is carried by exactly one row, every row has a name, and a row is marked
  \<open>NAME_CONFLICT\<close> exactly when more than one entry has the name of its entry.
  \<open>row_kept r r'\<close> relates a row before and after the second pairing loop: the sync and the
  filesystem view are the same, a marked row is unchanged, and an unmarked row stays unmarked.
  \<open>cloud_rows_ok\<close> is what the second loop establishes.
\<close>

definition fs_rows_ok :: "SyncClient \<Rightarrow> FSNode list \<Rightarrow> syncRow list \<Rightarrow> bool" where
  "fs_rows_ok c fs rows \<longleftrightarrow>
     (\<forall>k. length (filter (rowHasFsKey c k) rows) = (if k \<in> fsKey c ` set fs then 1 else 0)) \<and>
     (\<forall>r\<in>set rows. \<not> row_unnamed r \<and>
        (case fsNode r of
           None \<Rightarrow> cloudNode r = CloudNull
         | Some g \<Rightarrow> g \<in> set fs \<and>
             cloudNode r = (if 1 < length (filter (\<lambda>f. fsKey c f = fsKey c g) fs)
                           then NAME_CONFLICT else CloudNull)))"

definition row_kept :: "syncRow \<Rightarrow> syncRow \<Rightarrow> bool" where
  "row_kept r r' \<longleftrightarrow>
     syncNode r' = syncNode r \<and> fsNode r' = fsNode r \<and>
     (cloudNode r = NAME_CONFLICT \<longrightarrow> r' = r) \<and>
     (cloudNode r \<noteq> NAME_CONFLICT \<longrightarrow> cloudNode r' \<noteq> NAME_CONFLICT)"

definition cloud_rows_ok :: "syncRow list \<Rightarrow> syncRow list \<times> syncRow list \<Rightarrow> bool" where
  "cloud_rows_ok rows out \<longleftrightarrow>
     list_all2 row_kept rows (fst out) \<and>
     (\<forall>r\<in>set (snd out). cloudNode r \<noteq> NAME_CONFLICT \<and> syncNode r = None \<and> fsNode r = None)"

section \<open>Sample data\<close>

text \<open>
  A sync root \<^verbatim>\<open>/r\<close> with the cached files \<^verbatim>\<open>x\<close> and \<^verbatim>\<open>y\<close>, and a filesystem that
  holds the same two files. Before the run the root carries the filesystem id 5.
\<close>

definition ex_file :: "nat \<Rightarrow> string \<Rightarrow> 64 word \<Rightarrow> 64 word \<Rightarrow> LocalNode" where
  "ex_file p n sz mt = LocalNode \<lparr>ln_ptr = p, ln_type = FILENODE, ln_name = n, ln_localname = n,
     ln_slocalname = None, ln_size = sz, ln_mtime = mt, ln_isvalid = True,
     ln_syncedCloudNodeHandle = UNDEF, ln_transfer = False\<rparr> []"

definition ex_folder :: "nat \<Rightarrow> string \<Rightarrow> LocalNode list \<Rightarrow> LocalNode" where
  "ex_folder p n cs = LocalNode \<lparr>ln_ptr = p, ln_type = FOLDERNODE, ln_name = n, ln_localname = n,
     ln_slocalname = None, ln_size = 0, ln_mtime = 0, ln_isvalid = False,
     ln_syncedCloudNodeHandle = UNDEF, ln_transfer = False\<rparr> cs"



definition ex_root :: LocalNode where
  "ex_root = ex_folder 0 ''/r'' [ex_file 1 ''x'' 10 1000, ex_file 2 ''y'' 20 2000]"

definition ex_fa :: "nodetype_t \<Rightarrow> bool \<Rightarrow> handle \<Rightarrow> 64 word \<Rightarrow> 64 word \<Rightarrow> FileAccess" where
  "ex_fa t symlink i sz mt = \<lparr>fa_type = t, fa_mIsSymLink = symlink, fa_fsid = i, fa_fsidvalid = True,
     fa_size = sz, fa_mtime = mt\<rparr>"

text \<open>The environment, with what opening the root path gives as a parameter.\<close>

definition ex_env :: "FileAccess option \<Rightarrow> SyncEnv" where
  "ex_env rootfa = \<lparr>hashCombine = (\<lambda>a b. a + b),
     LightFileFingerprintCmp = (\<lambda>a b. ffp_size a < ffp_size b \<or>
        (ffp_size a = ffp_size b \<and> ffp_mtime a < ffp_mtime b)),
     ffp_default = \<lparr>ffp_size = - 1, ffp_mtime = 0\<rparr>,
     fopen = (\<lambda>p. if p = ''/r'' then rootfa
                  else if p = ''/r/x'' then Some (ex_fa FILENODE False 100 10 1000)
                  else if p = ''/r/y'' then Some (ex_fa FILENODE False 200 20 2000)
                  else None),
     dopen = (\<lambda>p. p = ''/r''),
     dnext = (\<lambda>p follow. if p = ''/r'' then [''y'', ''x''] else []),
     localseparator = CHR ''/'',
     toName = (\<lambda>p. p),
     sync_syncable = (\<lambda>n p. True)\<rparr>"

definition ex_heap :: lnheap where
  "ex_heap = (\<lambda>p. \<lparr>fsid = (if p = 0 then 5 else UNDEF), fsid_it = (if p = 0 then Some 5 else None),
      scanAgain = SYNCTREE_RESOLVED, syncAgain = SYNCTREE_RESOLVED, lastScanTime = 0\<rparr>)"

definition ex_index :: handlelocalnode_map where
  "ex_index = [5 \<mapsto> 0]"

text \<open>
  One fingerprint class with two cached nodes and two files: \<^verbatim>\<open>x\<close> in the folders
  \<^verbatim>\<open>a\<close> and \<^verbatim>\<open>b\<close>.
\<close>

definition ex_paths :: "lnptr \<Rightarrow> localpath" where
  "ex_paths l = (if l = 0 then ''/r'' else if l = 1 then ''/r/a/x'' else ''/r/b/x'')"

definition ex_class_files :: "FsFile list" where
  "ex_class_files = [\<lparr>ff_fsid = 100, ff_path = ''/r/a/x''\<rparr>, \<lparr>ff_fsid = 200, ff_path = ''/r/b/x''\<rparr>]"
definition ex_class_elements :: "Element list" where
  "ex_class_elements = sortElements (classElements CHR ''/'' 0 ex_paths [1, 2] ex_class_files)"

section \<open>Sample data for the reconciler\<close>

text \<open>
  A client on a case-insensitive filesystem; the row of the sync root \<^verbatim>\<open>/r\<close> with its cloud
  node, which has no children; a notification for a new file in the root; a row that exists
  in the cloud only; and a folder listing with two names that differ in case only.
\<close>

definition ex_fold_case :: "string \<Rightarrow> string" where
  "ex_fold_case s = map (\<lambda>ch. if CHR ''A'' \<le> ch \<and> ch \<le> CHR ''Z''
                               then char_of (of_char ch + (32 :: nat)) else ch) s"

definition ex_fsnode_default :: FSNode where
  "ex_fsnode_default = \<lparr>fs_localname = [], fs_name = [], fs_type = TYPE_UNKNOWN, fs_fsid = UNDEF,
     fs_isSymlink = False, fs_shortname = None,
     fs_fingerprint = \<lparr>fp_size = 0, fp_mtime = 0, fp_isvalid = False\<rparr>\<rparr>"

definition ex_client :: SyncClient where
  "ex_client = \<lparr>senv = ex_env (Some (ex_fa FOLDERNODE False 1 0 0)),
     nameKey = ex_fold_case, node_syncable = (\<lambda>n l. True), waiter_ds = 1000,
     followsymlinks = False, fopen_retry = (\<lambda>p. False), fsShortname = (\<lambda>p. None),
     fromName = (\<lambda>n. n), isnetwork = False, localdebris = ''/r/.debris'',
     FSNode_default = ex_fsnode_default\<rparr>"

definition ex_cloud :: "handle \<Rightarrow> string \<Rightarrow> Node list \<Rightarrow> Node" where
  "ex_cloud h n cs = Node \<lparr>n_nodehandle = h, n_canonicalname = n, n_displayname = n,
      n_mPendingChanges_empty = True\<rparr> cs"

definition ex_row :: syncRow where
  "ex_row = \<lparr>cloudNode = CloudNode (ex_cloud 77 ''r'' []), syncNode = Some ex_root,
     fsNode = Some (ex_fsnode_default\<lparr>fs_localname := ''/r'', fs_name := ''r'', fs_type := FOLDERNODE\<rparr>)\<rparr>"

definition ex_state :: "treeaction \<Rightarrow> SyncState" where
  "ex_state a = \<lparr>st_heap = ex_heap(0 := (ex_heap 0)\<lparr>scanAgain := a\<rparr>), st_events = [], st_quietTime = 0\<rparr>"

definition ex_notification :: Notification where
  "ex_notification = \<lparr>nt_localnode = NotifNode ex_root, nt_path = ''new.txt'', nt_timestamp = 0\<rparr>"

definition ex_cloud_only_row :: syncRow where
  "ex_cloud_only_row = \<lparr>cloudNode = CloudNode (ex_cloud 78 ''new.txt'' []), syncNode = None, fsNode = None\<rparr>"

definition ex_fs :: "string \<Rightarrow> FSNode" where
  "ex_fs n = ex_fsnode_default\<lparr>fs_localname := n, fs_name := n, fs_type := FILENODE\<rparr>"

definition ex_conflict_rows :: "syncRow list" where
  "ex_conflict_rows =
     buildChildRows ex_client [ex_fs ''README'', ex_fs ''Readme''] [] [ex_cloud 5 ''README'' []]"

section \<open>The score\<close>

lemma count_list_append_notin: "x \<notin> set ys \<Longrightarrow> count_list (xs @ ys) x = count_list xs x"
  by (induction xs) (auto simp: count_list_0_iff)

lemma rpms_inv_step:
  assumes inv: "rpms_inv sep p1 p2 (i, b, acc)"
    and i1: "i < length p1" and i2: "i < length p2"
    and eq: "rev p1 ! i = rev p2 ! i"
  shows "rpms_inv sep p1 p2
           (if rev p1 ! i = sep then (Suc i, Suc b, []) else (Suc i, b, acc @ [rev p1 ! i]))"
proof -
  from inv obtain pre where tk: "take i (rev p1) = take i (rev p2)"
    and pre: "take i (rev p1) = pre @ acc" "pre = [] \<or> last pre = sep" "sep \<notin> set acc"
      "b = count_list pre sep"
    by (auto simp: rpms_inv_def)
  have t1: "take (Suc i) (rev p1) = take i (rev p1) @ [rev p1 ! i]"
    using i1 by (simp add: take_Suc_conv_app_nth)
  have t2: "take (Suc i) (rev p2) = take i (rev p2) @ [rev p2 ! i]"
    using i2 by (simp add: take_Suc_conv_app_nth)
  have teq: "take (Suc i) (rev p1) = take (Suc i) (rev p2)"
    using t1 t2 tk eq by simp
  show ?thesis
  proof (cases "rev p1 ! i = sep")
    case True
    have "take (Suc i) (rev p1) = (pre @ acc @ [sep]) @ []"
      using t1 pre(1) True by simp
    moreover have "count_list (pre @ acc @ [sep]) sep = Suc b"
      using pre(3,4) by (simp add: count_list_0_iff)
    ultimately show ?thesis
      using True i1 i2 teq unfolding rpms_inv_def
      by (auto intro!: exI [of _ "pre @ acc @ [sep]"])
  next
    case False
    have "take (Suc i) (rev p1) = pre @ (acc @ [rev p1 ! i])"
      using t1 pre(1) by simp
    then show ?thesis
      using False i1 i2 teq pre unfolding rpms_inv_def
      by (auto intro!: exI [of _ pre])
  qed
qed

lemma rpmsLoop_exit:
  "\<not> (i \<le> e1 \<and> i \<le> e2) \<Longrightarrow> rpmsLoop sep p1 p2 e1 e2 i b acc = (i, b, acc)"
  by (subst rpmsLoop.simps) auto

lemma rpmsLoop_break:
  "i \<le> e1 \<Longrightarrow> i \<le> e2 \<Longrightarrow> p1 ! (e1 - i) \<noteq> p2 ! (e2 - i) \<Longrightarrow>
   rpmsLoop sep p1 p2 e1 e2 i b acc = (i, b, acc)"
  by (subst rpmsLoop.simps) auto

lemma rpmsLoop_sep:
  "i \<le> e1 \<Longrightarrow> i \<le> e2 \<Longrightarrow> p1 ! (e1 - i) = p2 ! (e2 - i) \<Longrightarrow> p1 ! (e1 - i) = sep \<Longrightarrow>
   rpmsLoop sep p1 p2 e1 e2 i b acc = rpmsLoop sep p1 p2 e1 e2 (i + 1) (b + 1) []"
  by (subst rpmsLoop.simps) auto

lemma rpmsLoop_char:
  "i \<le> e1 \<Longrightarrow> i \<le> e2 \<Longrightarrow> p1 ! (e1 - i) = p2 ! (e2 - i) \<Longrightarrow> p1 ! (e1 - i) \<noteq> sep \<Longrightarrow>
   rpmsLoop sep p1 p2 e1 e2 i b acc = rpmsLoop sep p1 p2 e1 e2 (i + 1) b (acc @ [p1 ! (e1 - i)])"
  by (subst rpmsLoop.simps) auto

lemma rpmsLoop_inv:
  assumes "p1 \<noteq> []" "p2 \<noteq> []" "e1 = length p1 - 1" "e2 = length p2 - 1"
    "rpms_inv sep p1 p2 (i, b, acc)"
  shows "rpms_inv sep p1 p2 (rpmsLoop sep p1 p2 e1 e2 i b acc) \<and>
         (fst (rpmsLoop sep p1 p2 e1 e2 i b acc) < length p1 \<and>
          fst (rpmsLoop sep p1 p2 e1 e2 i b acc) < length p2 \<longrightarrow>
            rev p1 ! fst (rpmsLoop sep p1 p2 e1 e2 i b acc)
              \<noteq> rev p2 ! fst (rpmsLoop sep p1 p2 e1 e2 i b acc))"
  using assms
proof (induction sep p1 p2 e1 e2 i b acc rule: rpmsLoop.induct)
  case (1 sep p1 p2 e1 e2 i b acc)
  show ?case
  proof (cases "i \<le> e1 \<and> i \<le> e2")
    case False
    then have r: "rpmsLoop sep p1 p2 e1 e2 i b acc = (i, b, acc)"
      by (rule rpmsLoop_exit)
    from False "1.prems" have "\<not> (i < length p1 \<and> i < length p2)" by auto
    with r "1.prems" show ?thesis by auto
  next
    case True
    with "1.prems" have i1: "i < length p1" and i2: "i < length p2"
      by (cases p1; cases p2; simp)+
    have v1: "p1 ! (e1 - i) = rev p1 ! i" using i1 "1.prems" by (simp add: rev_nth)
    have v2: "p2 ! (e2 - i) = rev p2 ! i" using i2 "1.prems" by (simp add: rev_nth)
    show ?thesis
    proof (cases "rev p1 ! i = rev p2 ! i")
      case False
      then have r: "rpmsLoop sep p1 p2 e1 e2 i b acc = (i, b, acc)"
        using True v1 v2 by (intro rpmsLoop_break) auto
      with False "1.prems" show ?thesis by simp
    next
      case eq: True
      note step = rpms_inv_step [OF "1.prems"(5) i1 i2 eq]
      show ?thesis
      proof (cases "rev p1 ! i = sep")
        case s: True
        have r: "rpmsLoop sep p1 p2 e1 e2 i b acc = rpmsLoop sep p1 p2 e1 e2 (i + 1) (b + 1) []"
          using True v1 v2 eq s by (intro rpmsLoop_sep) auto
        have "rpms_inv sep p1 p2 (i + 1, b + 1, [])" using step s by simp
        from "1.IH"(1) [OF True refl refl _ refl _ "1.prems"(1-4) this] v1 v2 eq s r
        show ?thesis by simp
      next
        case s: False
        have r: "rpmsLoop sep p1 p2 e1 e2 i b acc = rpmsLoop sep p1 p2 e1 e2 (i + 1) b (acc @ [rev p1 ! i])"
          using True v1 v2 eq s rpmsLoop_char [of i e1 e2 p1 p2 sep b acc] by auto
        have "rpms_inv sep p1 p2 (i + 1, b, acc @ [rev p1 ! i])" using step s by simp
        from "1.IH"(2) [OF True refl refl _ refl _ "1.prems"(1-4)] this v1 v2 eq s r
        show ?thesis by simp
      qed
    qed
  qed
qed

lemma rpms_inv_init: "rpms_inv sep p1 p2 (0, 0, [])"
  by (simp add: rpms_inv_def)

lemma static_cast_int_pos: "0 < static_cast_int n \<Longrightarrow> 0 < n"
  by (cases n) (auto simp: static_cast_int_def)

lemma static_cast_int_small: "n < 2 ^ 31 \<Longrightarrow> static_cast_int n = int n"
proof -
  assume "n < 2 ^ 31"
  then have "int n < 2 ^ 31" by (metis of_nat_less_iff of_nat_numeral of_nat_power)
  then show ?thesis
    unfolding static_cast_int_def
    by (simp add: signed_of_nat signed_take_bit_int_eq_self)
qed

lemma score_pos_leaf:
  assumes "0 < computeReversePathMatchScore sep p1 p2"
  shows "leafname sep p1 = leafname sep p2"
proof -
  from assms have ne: "p1 \<noteq> []" "p2 \<noteq> []"
    by (auto simp: computeReversePathMatchScore_def split: if_splits)
  obtain i b acc where r: "rpmsLoop sep p1 p2 (length p1 - 1) (length p2 - 1) 0 0 [] = (i, b, acc)"
    by (cases "rpmsLoop sep p1 p2 (length p1 - 1) (length p2 - 1) 0 0 []") auto
  from rpmsLoop_inv [OF ne refl refl rpms_inv_init, of sep] r
  have inv: "rpms_inv sep p1 p2 (i, b, acc)" by simp
  then obtain pre where le: "i \<le> length p1" "i \<le> length p2"
    and tk: "take i (rev p1) = take i (rev p2)"
    and pre: "take i (rev p1) = pre @ acc" "pre = [] \<or> last pre = sep" "b = count_list pre sep"
    by (auto simp: rpms_inv_def)
  show ?thesis
  proof (cases "i > length p1 - 1 \<and> i > length p2 - 1")
    case True
    with le ne have "i = length p1" "i = length p2" by auto
    with tk have "rev p1 = rev p2" by simp
    then show ?thesis by simp
  next
    case False
    with assms ne r have "0 < static_cast_int (i - b - length acc)"
      by (auto simp: computeReversePathMatchScore_def Let_def)
    then have pos: "0 < i - b - length acc" by (rule static_cast_int_pos)
    have "length (pre @ acc) = i" using pre(1) le by (metis length_rev length_take min.absorb2)
    with pos pre(3) have "pre \<noteq> []" by auto
    with pre(2) have "last pre = sep" by simp
    with \<open>pre \<noteq> []\<close> have mem: "sep \<in> set pre" using last_in_set by metis
    have "rev p1 = pre @ (acc @ drop i (rev p1))"
      using pre(1) append_take_drop_id [of i "rev p1"] by simp
    moreover have "rev p2 = pre @ (acc @ drop i (rev p2))"
      using pre(1) tk append_take_drop_id [of i "rev p2"] by simp
    moreover have "\<And>ys. takeWhile (\<lambda>c. c \<noteq> sep) (pre @ ys) = takeWhile (\<lambda>c. c \<noteq> sep) pre"
      using mem by (intro takeWhile_append1 [of sep]) auto
    ultimately have "takeWhile (\<lambda>c. c \<noteq> sep) (rev p1) = takeWhile (\<lambda>c. c \<noteq> sep) (rev p2)"
      by metis
    then show ?thesis by (simp add: leafname_def)
  qed
qed

lemma score_full:
  "computeReversePathMatchScore sep p p = static_cast_int (length p - count_list p sep)"
proof (cases "p = []")
  case True
  then show ?thesis by (simp add: computeReversePathMatchScore_def static_cast_int_def)
next
  case ne: False
  obtain i b acc where r: "rpmsLoop sep p p (length p - 1) (length p - 1) 0 0 [] = (i, b, acc)"
    by (cases "rpmsLoop sep p p (length p - 1) (length p - 1) 0 0 []") auto
  from rpmsLoop_inv [OF ne ne refl refl rpms_inv_init, of sep] r
  have inv: "rpms_inv sep p p (i, b, acc)" and ex: "\<not> i < length p" by auto
  then obtain pre where le: "i \<le> length p"
    and pre: "take i (rev p) = pre @ acc" "sep \<notin> set acc" "b = count_list pre sep"
    by (auto simp: rpms_inv_def)
  from le ex have i: "i = length p" by simp
  with pre(1) have "rev p = pre @ acc" by simp
  then have "count_list (rev p) sep = b" using pre(2,3) by (simp add: count_list_0_iff)
  then have b: "b = count_list p sep" by simp
  from ne i have "i > length p - 1" by (cases p) auto
  with ne r i b show ?thesis
    by (simp add: computeReversePathMatchScore_def)
qed

text \<open>
  Claim C7. For all paths: the score is 0 when either path is empty; a strictly positive
  score implies that the two leaf names are equal; and the score of a path against itself
  (a match over the whole of both paths) is the number of matched bytes minus the number of
  separators among them, as \<^verbatim>\<open>static_cast<int>\<close> delivers it, which is the exact
  difference for paths shorter than \<open>2^31\<close> bytes.
\<close>

theorem C7_reverse_path_match_score:
  "(path1 = [] \<or> path2 = [] \<longrightarrow> computeReversePathMatchScore sep path1 path2 = 0) \<and>
   (0 < computeReversePathMatchScore sep path1 path2 \<longrightarrow> leafname sep path1 = leafname sep path2) \<and>
   computeReversePathMatchScore sep path1 path1
     = static_cast_int (length path1 - count_list path1 sep) \<and>
   (length path1 < 2 ^ 31 \<longrightarrow>
      computeReversePathMatchScore sep path1 path1
        = int (length path1) - int (count_list path1 sep))"
proof (intro conjI impI)
  assume "path1 = [] \<or> path2 = []"
  then show "computeReversePathMatchScore sep path1 path2 = 0"
    by (auto simp: computeReversePathMatchScore_def)
next
  assume "0 < computeReversePathMatchScore sep path1 path2"
  then show "leafname sep path1 = leafname sep path2" by (rule score_pos_leaf)
next
  show "computeReversePathMatchScore sep path1 path1
          = static_cast_int (length path1 - count_list path1 sep)"
    by (rule score_full)
next
  assume "length path1 < 2 ^ 31"
  then have "length path1 - count_list path1 sep < 2 ^ 31" by simp
  moreover have "count_list path1 sep \<le> length path1" by (rule count_le_length)
  ultimately show "computeReversePathMatchScore sep path1 path1
          = int (length path1) - int (count_list path1 sep)"
    by (simp add: score_full static_cast_int_small of_nat_diff)
qed

theorem C7_reverse_path_match_score_witness:
  "0 < computeReversePathMatchScore CHR ''/'' ''x/ab'' ''y/ab'' \<and>
   leafname CHR ''/'' ''x/ab'' = leafname CHR ''/'' ''y/ab'' \<and>
   computeReversePathMatchScore CHR ''/'' [] ''y/ab'' = 0 \<and>
   length ''a/b/c'' < (2::nat) ^ 31 \<and>
   computeReversePathMatchScore CHR ''/'' ''a/b/c'' ''a/b/c'' = 3"
proof -
  have pos: "0 < computeReversePathMatchScore CHR ''/'' ''x/ab'' ''y/ab''"
    by code_simp
  have len: "length ''a/b/c'' < (2::nat) ^ 31" by simp
  from C7_reverse_path_match_score [of "''x/ab''" "''y/ab''" "CHR ''/''"] pos
  have "leafname CHR ''/'' ''x/ab'' = leafname CHR ''/'' ''y/ab''" by blast
  moreover from C7_reverse_path_match_score [of "[]" "''y/ab''" "CHR ''/''"]
  have "computeReversePathMatchScore CHR ''/'' [] ''y/ab'' = 0" by blast
  moreover from C7_reverse_path_match_score [of "''a/b/c''" "[]" "CHR ''/''"] len
  have "computeReversePathMatchScore CHR ''/'' ''a/b/c'' ''a/b/c'' = 3" by simp
  ultimately show ?thesis using pos len by blast
qed

section \<open>Order of enumeration of the children\<close>








section \<open>What the collection phase and the assignment phase do to the heap\<close>

lemma cleared_cleared: "cleared (cleared h A) B = cleared h (A \<union> B)"
  by (auto simp: cleared_def fun_eq_iff)

lemma unindexed_unindexed:
  "unindexed (cleared h A) (unindexed h idx A) B = unindexed h idx (A \<union> B)"
  by (auto simp: unindexed_def cleared_def fun_eq_iff)

lemma collect_node_step:
  "collectAllLocalNodes env (LocalNode f cs) (fps, lns, h, idx) =
     (let r = computeFingerprint (hashCombine env) (ffp_default env) (LocalNode f cs);
          h2 = cleared h {ln_ptr f}; idx1 = unindexed h idx {ln_ptr f};
          s1 = (if fst r
                then (case fpset_add (LightFileFingerprintCmp env) (snd r) fps of
                        (ffpPtr, fps') \<Rightarrow>
                          (fps', mm_insert (LightFileFingerprintCmp env) (ffpPtr, ln_ptr f) lns, h2, idx1))
                else (fps, lns, h2, idx1))
      in if ln_type f = FILENODE then s1 else fold (collectAllLocalNodes env) cs s1)"
proof -
  have h: "(case fsid_it ((h(ln_ptr f := (h (ln_ptr f))\<lparr>fsid := UNDEF\<rparr>)) (ln_ptr f)) of
             None \<Rightarrow> h(ln_ptr f := (h (ln_ptr f))\<lparr>fsid := UNDEF\<rparr>)
           | Some k \<Rightarrow> (h(ln_ptr f := (h (ln_ptr f))\<lparr>fsid := UNDEF\<rparr>))
                 (ln_ptr f := ((h(ln_ptr f := (h (ln_ptr f))\<lparr>fsid := UNDEF\<rparr>)) (ln_ptr f))\<lparr>fsid_it := None\<rparr>))
           = cleared h {ln_ptr f}"
    by (auto simp: cleared_def fun_eq_iff split: option.splits)
  have i: "(case fsid_it ((h(ln_ptr f := (h (ln_ptr f))\<lparr>fsid := UNDEF\<rparr>)) (ln_ptr f)) of
             None \<Rightarrow> idx | Some k \<Rightarrow> idx(k := None)) = unindexed h idx {ln_ptr f}"
    by (auto simp: unindexed_def fun_eq_iff split: option.splits)
  show ?thesis
    unfolding collectAllLocalNodes.simps Let_def h i ..
qed

lemma fold_collect_clears:
  assumes "\<And>c s. c \<in> set cs \<Longrightarrow>
      cs_heap (collectAllLocalNodes env c s) = cleared (cs_heap s) (set (node_ptrs c)) \<and>
      cs_index (collectAllLocalNodes env c s) = unindexed (cs_heap s) (cs_index s) (set (node_ptrs c))"
  shows "cs_heap (fold (collectAllLocalNodes env) cs s) = cleared (cs_heap s) (\<Union>c\<in>set cs. set (node_ptrs c)) \<and>
         cs_index (fold (collectAllLocalNodes env) cs s)
           = unindexed (cs_heap s) (cs_index s) (\<Union>c\<in>set cs. set (node_ptrs c))"
  using assms
proof (induction cs arbitrary: s)
  case Nil
  show ?case by (simp add: cleared_def unindexed_def)
next
  case (Cons c cs)
  have c: "cs_heap (collectAllLocalNodes env c s) = cleared (cs_heap s) (set (node_ptrs c))"
    "cs_index (collectAllLocalNodes env c s) = unindexed (cs_heap s) (cs_index s) (set (node_ptrs c))"
    using Cons.prems [of c s] by simp_all
  have "\<And>c' s'. c' \<in> set cs \<Longrightarrow>
      cs_heap (collectAllLocalNodes env c' s') = cleared (cs_heap s') (set (node_ptrs c')) \<and>
      cs_index (collectAllLocalNodes env c' s') = unindexed (cs_heap s') (cs_index s') (set (node_ptrs c'))"
    using Cons.prems by simp
  from Cons.IH [OF this, of "collectAllLocalNodes env c s"]
  show ?case
    by (simp add: c cleared_cleared unindexed_unindexed)
qed

lemma collect_clears:
  "cs_heap (collectAllLocalNodes env t s) = cleared (cs_heap s) (set (node_ptrs t)) \<and>
   cs_index (collectAllLocalNodes env t s) = unindexed (cs_heap s) (cs_index s) (set (node_ptrs t))"
proof (induction t arbitrary: s)
  case (LocalNode f cs)
  obtain fps lns h idx where s: "s = (fps, lns, h, idx)" by (cases s) auto
  have IH: "\<And>c s. c \<in> set cs \<Longrightarrow>
      cs_heap (collectAllLocalNodes env c s) = cleared (cs_heap s) (set (node_ptrs c)) \<and>
      cs_index (collectAllLocalNodes env c s) = unindexed (cs_heap s) (cs_index s) (set (node_ptrs c))"
    using LocalNode.IH by blast
  note F = fold_collect_clears [of cs env, OF IH]
  define r where "r = computeFingerprint (hashCombine env) (ffp_default env) (LocalNode f cs)"
  define s1 where "s1 = (if fst r
                then (case fpset_add (LightFileFingerprintCmp env) (snd r) fps of
                        (ffpPtr, fps') \<Rightarrow>
                          (fps', mm_insert (LightFileFingerprintCmp env) (ffpPtr, ln_ptr f) lns,
                           cleared h {ln_ptr f}, unindexed h idx {ln_ptr f}))
                else (fps, lns, cleared h {ln_ptr f}, unindexed h idx {ln_ptr f}))"
  have s1: "cs_heap s1 = cleared h {ln_ptr f}" "cs_index s1 = unindexed h idx {ln_ptr f}"
    by (auto simp: s1_def cs_heap_def cs_index_def split: prod.splits)
  have res: "collectAllLocalNodes env (LocalNode f cs) s =
      (if ln_type f = FILENODE then s1 else fold (collectAllLocalNodes env) cs s1)"
    unfolding s collect_node_step Let_def s1_def r_def ..
  have hs: "cs_heap s = h" "cs_index s = idx" by (simp_all add: s cs_heap_def cs_index_def)
  show ?case
  proof (cases "ln_type f = FILENODE")
    case True
    then show ?thesis by (simp add: res s1 hs)
  next
    case False
    then show ?thesis
      by (simp add: res F s1 hs cleared_cleared unindexed_unindexed)
  qed
qed

lemma setfsid_other: "l \<noteq> p \<Longrightarrow> fst (setfsid l x hs) p = fst hs p"
  by (cases hs) (simp add: setfsid_def Let_def)

lemma setfsid_index_other:
  "l \<noteq> p \<Longrightarrow> snd (setfsid l x hs) k = Some p \<Longrightarrow> snd hs k = Some p"
  by (cases hs) (auto simp: setfsid_def Let_def split: option.splits if_splits)

lemma assignStep_other:
  "el_l e \<noteq> p \<Longrightarrow> fst (fst (assignStep e s)) p = fst (fst s) p \<and>
     (snd (fst (assignStep e s)) k = Some p \<longrightarrow> snd (fst s) k = Some p)"
  by (cases s) (auto simp: assignStep_def setfsid_other dest: setfsid_index_other)

lemma assignLoop_other:
  "\<forall>e\<in>set es. el_l e \<noteq> p \<Longrightarrow> fst (fst (assignLoop es s)) p = fst (fst s) p \<and>
     (snd (fst (assignLoop es s)) k = Some p \<longrightarrow> snd (fst s) k = Some p)"
  unfolding assignLoop_def
proof (induction es arbitrary: s)
  case Nil then show ?case by simp
next
  case (Cons e es)
  from Cons.prems have e: "el_l e \<noteq> p" and es: "\<forall>e\<in>set es. el_l e \<noteq> p" by auto
  from Cons.IH [OF es, of "assignStep e s"] assignStep_other [OF e, of s k]
  show ?case by simp
qed

lemma classElements_not_root: "e \<in> set (classElements sep localroot pathOf ns fs) \<Longrightarrow> el_l e \<noteq> localroot"
  by (auto simp: classElements_def Let_def split: if_splits)

lemma set_sortElements: "set (sortElements es) = set es"
  by (simp add: sortElements_def)

lemma impl_loop_root:
  "fst (is_hs (assignFilesystemIdsImpl_loop env localroot pathOf fps s)) localroot = fst (is_hs s) localroot \<and>
   (snd (is_hs (assignFilesystemIdsImpl_loop env localroot pathOf fps s)) k = Some localroot
      \<longrightarrow> snd (is_hs s) k = Some localroot)"
proof (induction fps arbitrary: s)
  case Nil then show ?case by simp
next
  case (Cons fp fps)
  obtain lns files hs cnt where s: "s = (lns, files, hs, cnt)" by (cases s) auto
  define nodeRange where "nodeRange = mm_equal_range (LightFileFingerprintCmp env) lns fp"
  define fileRange where "fileRange = mm_equal_range (LightFileFingerprintCmp env) files fp"
  define es where "es = sortElements (classElements (localseparator env) localroot pathOf nodeRange fileRange)"
  have nr: "\<forall>e\<in>set es. el_l e \<noteq> localroot"
    by (auto simp: es_def set_sortElements dest: classElements_not_root)
  note L = assignLoop_other [OF nr, of "(hs, [], cnt)" k]
  obtain hs' used cnt' where al: "assignLoop es (hs, [], cnt) = (hs', used, cnt')"
    by (cases "assignLoop es (hs, [], cnt)") auto
  have step: "assignFilesystemIdsImpl_loop env localroot pathOf (fp # fps) s =
     (if length nodeRange \<le> 0 then assignFilesystemIdsImpl_loop env localroot pathOf fps (lns, files, hs, cnt)
      else if length fileRange \<le> 0
      then assignFilesystemIdsImpl_loop env localroot pathOf fps
             (mm_erase (LightFileFingerprintCmp env) fp lns, files, hs, cnt)
      else assignFilesystemIdsImpl_loop env localroot pathOf fps
             (mm_erase (LightFileFingerprintCmp env) fp lns,
              mm_erase (LightFileFingerprintCmp env) fp files, hs', cnt'))"
    unfolding s assignFilesystemIdsImpl_loop.simps Let_def
      nodeRange_def [symmetric] fileRange_def [symmetric] es_def [symmetric] al
    by simp
  have hs': "fst hs' localroot = fst hs localroot" "snd hs' k = Some localroot \<longrightarrow> snd hs k = Some localroot"
    using L al by simp_all
  consider (a) "length nodeRange \<le> 0" | (b) "\<not> length nodeRange \<le> 0" "length fileRange \<le> 0"
    | (c) "\<not> length nodeRange \<le> 0" "\<not> length fileRange \<le> 0" by blast
  then show ?case
  proof cases
    case a
    with step Cons.IH [of "(lns, files, hs, cnt)"] show ?thesis by (simp add: s)
  next
    case b
    with step Cons.IH [of "(mm_erase (LightFileFingerprintCmp env) fp lns, files, hs, cnt)"]
    show ?thesis by (simp add: s is_hs_def)
  next
    case c
    with step Cons.IH [of "(mm_erase (LightFileFingerprintCmp env) fp lns,
              mm_erase (LightFileFingerprintCmp env) fp files, hs', cnt')"] hs'
    show ?thesis by (simp add: s is_hs_def)
  qed
qed

lemma option_fold_Some:
  "(\<And>x s. x \<in> set xs \<Longrightarrow> f x s \<noteq> None) \<Longrightarrow> option_fold f xs s \<noteq> None"
  by (induction xs arbitrary: s) (auto split: option.splits)

lemma collectAllFiles_returns:
  "fs_walk_ends d env debris localpath \<Longrightarrow> d \<le> fuel \<Longrightarrow>
   collectAllFiles fuel env debris localpath s \<noteq> None"
proof (induction d arbitrary: fuel localpath s)
  case 0 then show ?case by simp
next
  case (Suc d)
  then obtain n where fuel: "fuel = Suc n" "d \<le> n" by (cases fuel) auto
  obtain success fps files where s: "s = (success, fps, files)" by (cases s) auto
  show ?case
  proof (cases "fopen env localpath")
    case None
    then show ?thesis by (simp add: fuel s)
  next
    case (Some fa)
    show ?thesis
    proof (cases "fa_mIsSymLink fa \<or> \<not> fa_fsidvalid fa \<or> fa_type fa \<noteq> FOLDERNODE")
      case True
      with Some show ?thesis
        by (cases "insertFingerprint env fa localpath [] (success, fps, files)") (auto simp: fuel s)
    next
      case False
      with Suc.prems(1) Some have
        "\<forall>p\<in>set (collectAllPathsInFolder env localpath debris). fs_walk_ends d env debris p"
        by simp
      then have "\<And>p s'. p \<in> set (collectAllPathsInFolder env localpath debris) \<Longrightarrow>
          collectAllFiles n env debris p s' \<noteq> None"
        using Suc.IH fuel(2) by blast
      then have "option_fold (\<lambda>path. collectAllFiles n env debris path)
          (collectAllPathsInFolder env localpath debris)
          (insertFingerprint env fa localpath (collectAllPathsInFolder env localpath debris) (success, fps, files)) \<noteq> None"
        by (rule option_fold_Some)
      with Some False show ?thesis by (simp add: fuel s Let_def)
    qed
  qed
qed

section \<open>Claims about fingerprints and filesystem-id assignment\<close>




text \<open>
  Claim C8. \<^verbatim>\<open>assignFilesystemIds\<close> returns false, leaving the heap and the index as they
  were, when the root path cannot be opened, is not a folder, or is a symlink.
\<close>

theorem C8_assignFilesystemIds_root_failure:
  "fopen env (ln_localname (lnf localroot)) = None \<or>
   (\<exists>fa. fopen env (ln_localname (lnf localroot)) = Some fa \<and>
         (fa_type fa \<noteq> FOLDERNODE \<or> fa_mIsSymLink fa)) \<Longrightarrow>
   assignFilesystemIds fuel env localroot debris hs = Some (False, hs)"
  by (auto simp: assignFilesystemIds_def)

theorem C8_assignFilesystemIds_root_failure_witness:
  "fopen (ex_env None) (ln_localname (lnf ex_root)) = None \<and>
   assignFilesystemIds 3 (ex_env None) ex_root ''/r/.debris'' (ex_heap, ex_index)
     = Some (False, (ex_heap, ex_index)) \<and>
   fopen (ex_env (Some (ex_fa FILENODE False 1 0 0))) (ln_localname (lnf ex_root))
     = Some (ex_fa FILENODE False 1 0 0) \<and>
   fa_type (ex_fa FILENODE False 1 0 0) \<noteq> FOLDERNODE \<and>
   assignFilesystemIds 3 (ex_env (Some (ex_fa FILENODE False 1 0 0))) ex_root ''/r/.debris'' (ex_heap, ex_index)
     = Some (False, (ex_heap, ex_index)) \<and>
   fopen (ex_env (Some (ex_fa FOLDERNODE True 1 0 0))) (ln_localname (lnf ex_root))
     = Some (ex_fa FOLDERNODE True 1 0 0) \<and>
   fa_mIsSymLink (ex_fa FOLDERNODE True 1 0 0) \<and>
   assignFilesystemIds 3 (ex_env (Some (ex_fa FOLDERNODE True 1 0 0))) ex_root ''/r/.debris'' (ex_heap, ex_index)
     = Some (False, (ex_heap, ex_index))"
proof -
  have a: "fopen (ex_env None) (ln_localname (lnf ex_root)) = None"
    by (simp add: ex_env_def ex_root_def ex_folder_def)
  have b: "fopen (ex_env (Some (ex_fa FILENODE False 1 0 0))) (ln_localname (lnf ex_root))
     = Some (ex_fa FILENODE False 1 0 0)" "fa_type (ex_fa FILENODE False 1 0 0) \<noteq> FOLDERNODE"
    by (simp_all add: ex_env_def ex_root_def ex_folder_def ex_fa_def)
  have c: "fopen (ex_env (Some (ex_fa FOLDERNODE True 1 0 0))) (ln_localname (lnf ex_root))
     = Some (ex_fa FOLDERNODE True 1 0 0)" "fa_mIsSymLink (ex_fa FOLDERNODE True 1 0 0)"
    by (simp_all add: ex_env_def ex_root_def ex_folder_def ex_fa_def)
  from C8_assignFilesystemIds_root_failure [of "ex_env None" ex_root 3 "''/r/.debris''" "(ex_heap, ex_index)"] a
  have 1: "assignFilesystemIds 3 (ex_env None) ex_root ''/r/.debris'' (ex_heap, ex_index)
     = Some (False, (ex_heap, ex_index))" by blast
  from C8_assignFilesystemIds_root_failure [of "ex_env (Some (ex_fa FILENODE False 1 0 0))" ex_root 3 "''/r/.debris''" "(ex_heap, ex_index)"] b
  have 2: "assignFilesystemIds 3 (ex_env (Some (ex_fa FILENODE False 1 0 0))) ex_root ''/r/.debris'' (ex_heap, ex_index)
     = Some (False, (ex_heap, ex_index))" by blast
  from C8_assignFilesystemIds_root_failure [of "ex_env (Some (ex_fa FOLDERNODE True 1 0 0))" ex_root 3 "''/r/.debris''" "(ex_heap, ex_index)"] c
  have 3: "assignFilesystemIds 3 (ex_env (Some (ex_fa FOLDERNODE True 1 0 0))) ex_root ''/r/.debris'' (ex_heap, ex_index)
     = Some (False, (ex_heap, ex_index))" by blast
  from a b c 1 2 3 show ?thesis by blast
qed

subsection \<open>The root keeps no filesystem id\<close>

lemma node_ptrs_root: "ln_ptr (lnf t) \<in> set (node_ptrs t)"
  by (cases t) simp

lemma assignFilesystemIds_root:
  assumes ok: "fopen env (ln_localname (lnf localroot)) = Some fa" "fa_type fa = FOLDERNODE"
      "\<not> fa_mIsSymLink fa"
    and run: "assignFilesystemIds fuel env localroot debris hs = Some (res, hs')"
  shows "fsid (fst hs' (ln_ptr (lnf localroot))) = UNDEF \<and>
         fsid_it (fst hs' (ln_ptr (lnf localroot))) = None \<and>
         (\<forall>k. snd hs' k = Some (ln_ptr (lnf localroot)) \<longrightarrow>
              snd hs k = Some (ln_ptr (lnf localroot)) \<and>
              fsid_it (fst hs (ln_ptr (lnf localroot))) \<noteq> Some k)"
proof -
  define r where "r = ln_ptr (lnf localroot)"
  obtain fps lns h1 idx1 where c: "collectAllLocalNodes env localroot ([], [], fst hs, snd hs) = (fps, lns, h1, idx1)"
    by (cases "collectAllLocalNodes env localroot ([], [], fst hs, snd hs)") auto
  from collect_clears [of env localroot "([], [], fst hs, snd hs)"] c
  have h1: "h1 = cleared (fst hs) (set (node_ptrs localroot))"
    and i1: "idx1 = unindexed (fst hs) (snd hs) (set (node_ptrs localroot))"
    by (simp_all add: cs_heap_def cs_index_def)
  have rin: "r \<in> set (node_ptrs localroot)" unfolding r_def by (rule node_ptrs_root)
  have A: "fsid (h1 r) = UNDEF" "fsid_it (h1 r) = None" using rin by (simp_all add: h1 cleared_def)
  have B: "\<And>k. idx1 k = Some r \<Longrightarrow> snd hs k = Some r \<and> fsid_it (fst hs r) \<noteq> Some k"
    using rin by (auto simp: i1 unindexed_def split: if_splits)
  show ?thesis
  proof (cases "lns = []")
    case True
    with run ok c have "hs' = (h1, idx1)" by (simp add: assignFilesystemIds_def)
    with A B show ?thesis by (auto simp: r_def)
  next
    case False
    with run ok c obtain success fps' files where
      f: "collectAllFiles fuel env debris (ln_localname (lnf localroot)) (True, fps, []) = Some (success, fps', files)"
      by (auto simp: assignFilesystemIds_def split: option.splits)
    define s0 :: impl_state where "s0 = (lns, files, (h1, idx1), 0)"
    define s1 where "s1 = assignFilesystemIdsImpl_loop env r (getLocalPath (localseparator env) localroot) fps' s0"
    from run ok c False f have "hs' = is_hs s1"
      by (auto simp: assignFilesystemIds_def assignFilesystemIdsImpl_def s1_def s0_def r_def is_hs_def
          split: prod.splits)
    moreover have "\<And>k. fst (is_hs s1) r = fst (is_hs s0) r \<and> (snd (is_hs s1) k = Some r \<longrightarrow> snd (is_hs s0) k = Some r)"
      unfolding s1_def by (rule impl_loop_root)
    moreover have "is_hs s0 = (h1, idx1)" by (simp add: s0_def is_hs_def)
    ultimately show ?thesis using A B by (auto simp: r_def)
  qed
qed

lemma assignFilesystemIds_returns:
  assumes "fs_walk_ends d env debris (ln_localname (lnf localroot))" "d \<le> fuel"
  shows "\<exists>res hs'. assignFilesystemIds fuel env localroot debris hs = Some (res, hs')"
proof -
  obtain fps lns h1 idx1 where
    c: "collectAllLocalNodes env localroot ([], [], fst hs, snd hs) = (fps, lns, h1, idx1)"
    by (cases "collectAllLocalNodes env localroot ([], [], fst hs, snd hs)") auto
  have "collectAllFiles fuel env debris (ln_localname (lnf localroot)) (True, fps, []) \<noteq> None"
    using assms by (rule collectAllFiles_returns)
  then obtain y where
    "collectAllFiles fuel env debris (ln_localname (lnf localroot)) (True, fps, []) = Some y"
    by auto
  then obtain success fps' files where f:
    "collectAllFiles fuel env debris (ln_localname (lnf localroot)) (True, fps, []) = Some (success, fps', files)"
    by (cases y) auto
  obtain cnt hs2 where i: "assignFilesystemIdsImpl env (ln_ptr (lnf localroot))
      (getLocalPath (localseparator env) localroot) fps' lns files (h1, idx1) = (cnt, hs2)"
    by (cases "assignFilesystemIdsImpl env (ln_ptr (lnf localroot))
      (getLocalPath (localseparator env) localroot) fps' lns files (h1, idx1)") auto
  have c': "collectAllLocalNodes env localroot ([], [], hs) = (fps, lns, h1, idx1)"
    using c by simp
  show ?thesis
  proof (cases "fopen env (ln_localname (lnf localroot))")
    case None
    then show ?thesis by (auto simp: assignFilesystemIds_def)
  next
    case (Some fa)
    then show ?thesis
      by (cases "lns = []") (auto simp: assignFilesystemIds_def c' f i)
  qed
qed

text \<open>
  Claim C10, as amended. When the root path opens as a folder that is not a symlink, every
  run of \<^verbatim>\<open>assignFilesystemIds\<close> that returns leaves the root with \<open>fsid = UNDEF\<close>, with no
  index iterator, and with no index entry other than one that was there before and was not
  the root's own; and the run returns whenever the walk over the filesystem is bounded.
  The collection phase invalidates exactly the visited nodes, the root among them, and no
  candidate pair of the assignment phase has the root as its node.
\<close>

theorem C10_root_fsid_after_run:
  "(fopen env (ln_localname (lnf localroot)) = Some fa \<and> fa_type fa = FOLDERNODE \<and> \<not> fa_mIsSymLink fa
      \<longrightarrow>
      (\<forall>res hs'. assignFilesystemIds fuel env localroot debris hs = Some (res, hs') \<longrightarrow>
         fsid (fst hs' (ln_ptr (lnf localroot))) = UNDEF \<and>
         fsid_it (fst hs' (ln_ptr (lnf localroot))) = None \<and>
         (\<forall>k. snd hs' k = Some (ln_ptr (lnf localroot)) \<longrightarrow>
              snd hs k = Some (ln_ptr (lnf localroot)) \<and>
              fsid_it (fst hs (ln_ptr (lnf localroot))) \<noteq> Some k))) \<and>
   (fs_walk_ends d env debris (ln_localname (lnf localroot)) \<and> d \<le> fuel \<longrightarrow>
      (\<exists>res hs'. assignFilesystemIds fuel env localroot debris hs = Some (res, hs'))) \<and>
   cs_heap (collectAllLocalNodes env localroot s) = cleared (cs_heap s) (set (node_ptrs localroot)) \<and>
   cs_index (collectAllLocalNodes env localroot s)
     = unindexed (cs_heap s) (cs_index s) (set (node_ptrs localroot)) \<and>
   ln_ptr (lnf localroot) \<in> set (node_ptrs localroot) \<and>
   (\<forall>e\<in>set (classElements sep (ln_ptr (lnf localroot)) nodePathOf nodeRange fileRange).
      el_l e \<noteq> ln_ptr (lnf localroot))"
  using assignFilesystemIds_root [of env localroot fa fuel debris hs]
    assignFilesystemIds_returns [of d env debris localroot fuel hs]
    collect_clears [of env localroot s] node_ptrs_root [of localroot]
    classElements_not_root [of _ sep "ln_ptr (lnf localroot)" nodePathOf nodeRange fileRange]
  by blast

theorem C10_root_fsid_after_run_witness:
  "fopen (ex_env (Some (ex_fa FOLDERNODE False 1 0 0))) (ln_localname (lnf ex_root))
     = Some (ex_fa FOLDERNODE False 1 0 0) \<and>
   fa_type (ex_fa FOLDERNODE False 1 0 0) = FOLDERNODE \<and>
   \<not> fa_mIsSymLink (ex_fa FOLDERNODE False 1 0 0) \<and>
   fs_walk_ends 2 (ex_env (Some (ex_fa FOLDERNODE False 1 0 0))) ''/r/.debris'' (ln_localname (lnf ex_root)) \<and>
   (2::nat) \<le> 3 \<and>
   fsid (ex_heap (ln_ptr (lnf ex_root))) = 5 \<and>
   (\<exists>res hs'. assignFilesystemIds 3 (ex_env (Some (ex_fa FOLDERNODE False 1 0 0))) ex_root
                 ''/r/.debris'' (ex_heap, ex_index) = Some (res, hs') \<and>
              fsid (fst hs' (ln_ptr (lnf ex_root))) = UNDEF)"
proof -
  let ?env = "ex_env (Some (ex_fa FOLDERNODE False 1 0 0))"
  have a: "fopen ?env (ln_localname (lnf ex_root)) = Some (ex_fa FOLDERNODE False 1 0 0)"
    "fa_type (ex_fa FOLDERNODE False 1 0 0) = FOLDERNODE"
    "\<not> fa_mIsSymLink (ex_fa FOLDERNODE False 1 0 0)"
    by (simp_all add: ex_env_def ex_root_def ex_folder_def ex_fa_def)
  have w: "fs_walk_ends 2 ?env ''/r/.debris'' (ln_localname (lnf ex_root))"
    by code_simp
  have h: "fsid (ex_heap (ln_ptr (lnf ex_root))) = 5"
    by (simp add: ex_heap_def ex_root_def ex_folder_def)
  note T = C10_root_fsid_after_run [of ?env ex_root "ex_fa FOLDERNODE False 1 0 0" 3 "''/r/.debris''"
      "(ex_heap, ex_index)" 2 "([], [], ex_heap, ex_index)" "CHR ''/''" "\<lambda>l. []" "[]" "[]"]
  from T [THEN conjunct2, THEN conjunct1] w obtain res hs' where
    r: "assignFilesystemIds 3 ?env ex_root ''/r/.debris'' (ex_heap, ex_index) = Some (res, hs')"
    by auto
  with T [THEN conjunct1] a have "fsid (fst hs' (ln_ptr (lnf ex_root))) = UNDEF" by blast
  with a w h r show ?thesis by auto
qed

text \<open>
  The claim as stated fails for a run that ends at the first check: the root path cannot be
  opened, the run returns false, and the root still has the filesystem id 5 it had before.
\<close>

theorem C10_failed_run_counterexample:
  "assignFilesystemIds 3 (ex_env None) ex_root ''/r/.debris'' (ex_heap, ex_index)
     = Some (False, (ex_heap, ex_index)) \<and>
   fsid (ex_heap (ln_ptr (lnf ex_root))) = 5 \<and> (5 :: handle) \<noteq> UNDEF"
  by (simp add: assignFilesystemIds_def ex_env_def ex_root_def ex_folder_def ex_heap_def UNDEF_def)

subsection \<open>The greedy assignment within one fingerprint class\<close>

lemma classElements_iff:
  "e \<in> set (classElements sep localroot nodePathOf nodeRange fileRange) \<longleftrightarrow>
   (\<exists>l\<in>set nodeRange. \<exists>file\<in>set fileRange.
      l \<noteq> localroot \<and>
      0 < computeReversePathMatchScore sep (nodePathOf l) (ff_path file) \<and>
      e = \<lparr>el_score = computeReversePathMatchScore sep (nodePathOf l) (ff_path file),
           el_fsid = ff_fsid file, el_l = l\<rparr>)"
  by (auto simp: classElements_def Let_def split: if_splits)

lemma mset_sortElements: "mset (sortElements es) = mset es"
  by (simp add: sortElements_def)

lemma sorted_sortElements: "sorted_wrt (\<lambda>a b. el_score b \<le> el_score a) (sortElements es)"
proof -
  have "sorted (map (\<lambda>e. - el_score e) (sortElements es))"
    unfolding sortElements_def by (rule sorted_sort_key)
  then show ?thesis by (simp add: sorted_map)
qed

lemma assignLoop_split:
  "assignLoop (pre @ e # post) s = assignLoop post (assignStep e (assignLoop pre s))"
  by (simp add: assignLoop_def)

lemma assignStep_cases:
  "assignStep e (hs, usedFsIds, assignmentCount) =
     (if fsid (fst hs (el_l e)) \<noteq> UNDEF \<or> el_fsid e \<in> set usedFsIds
      then (hs, usedFsIds, assignmentCount)
      else (setfsid (el_l e) (el_fsid e) hs, el_fsid e # usedFsIds, assignmentCount + 1))"
  by (simp add: assignStep_def)

lemma assignLoop_used:
  "assignLoop es (hs, used, n) = (hs', used', n') \<Longrightarrow> distinct used \<Longrightarrow>
   distinct used' \<and> n' + length used = n + length used' \<and> set used' \<subseteq> set used \<union> el_fsid ` set es"
  unfolding assignLoop_def
proof (induction es arbitrary: hs used n)
  case Nil then show ?case by simp
next
  case (Cons e es)
  show ?case
  proof (cases "fsid (fst hs (el_l e)) \<noteq> UNDEF \<or> el_fsid e \<in> set used")
    case True
    with Cons.prems have "fold assignStep es (hs, used, n) = (hs', used', n')"
      by (simp add: assignStep_cases)
    from Cons.IH [OF this Cons.prems(2)] show ?thesis by auto
  next
    case False
    with Cons.prems have "fold assignStep es (setfsid (el_l e) (el_fsid e) hs, el_fsid e # used, n + 1) = (hs', used', n')"
      by (simp add: assignStep_cases)
    moreover have "distinct (el_fsid e # used)" using False Cons.prems(2) by simp
    ultimately have "distinct used' \<and> n' + length (el_fsid e # used) = n + 1 + length used' \<and>
        set used' \<subseteq> set (el_fsid e # used) \<union> el_fsid ` set es"
      by (rule Cons.IH)
    then show ?thesis by auto
  qed
qed

lemma rpmsLoop_index_le:
  assumes "p1 \<noteq> []" "p2 \<noteq> []"
  shows "fst (rpmsLoop sep p1 p2 (length p1 - 1) (length p2 - 1) 0 0 []) \<le> length p1"
  using rpmsLoop_inv [OF assms refl refl rpms_inv_init, of sep]
  by (cases "rpmsLoop sep p1 p2 (length p1 - 1) (length p2 - 1) 0 0 []") (auto simp: rpms_inv_def)

lemma score_nonneg:
  assumes "length path1 < 2 ^ 31"
  shows "0 \<le> computeReversePathMatchScore sep path1 path2"
proof (cases "path1 = [] \<or> path2 = []")
  case True
  then show ?thesis by (auto simp: computeReversePathMatchScore_def)
next
  case False
  obtain i b acc where r: "rpmsLoop sep path1 path2 (length path1 - 1) (length path2 - 1) 0 0 [] = (i, b, acc)"
    by (cases "rpmsLoop sep path1 path2 (length path1 - 1) (length path2 - 1) 0 0 []") auto
  from rpmsLoop_index_le [of path1 path2 sep] False r have "i \<le> length path1" by simp
  with assms have "i - b < 2 ^ 31" "i - b - length acc < 2 ^ 31" by simp_all
  then have "static_cast_int (i - b) = int (i - b)"
    "static_cast_int (i - b - length acc) = int (i - b - length acc)"
    by (simp_all add: static_cast_int_small)
  with False r show ?thesis
    by (simp add: computeReversePathMatchScore_def)
qed

lemma impl_loop_class:
  assumes "mm_equal_range (LightFileFingerprintCmp env) localnodes fp \<noteq> []"
    "mm_equal_range (LightFileFingerprintCmp env) files fp \<noteq> []"
  shows "assignFilesystemIdsImpl_loop env localroot nodePathOf (fp # fps) (localnodes, files, hs, n) =
     (case assignLoop (sortElements (classElements (localseparator env) localroot nodePathOf
                 (mm_equal_range (LightFileFingerprintCmp env) localnodes fp)
                 (mm_equal_range (LightFileFingerprintCmp env) files fp))) (hs, [], n) of
        (hs', usedFsIds, n') \<Rightarrow>
          assignFilesystemIdsImpl_loop env localroot nodePathOf fps
            (mm_erase (LightFileFingerprintCmp env) fp localnodes,
             mm_erase (LightFileFingerprintCmp env) fp files, hs', n'))"
  using assms by (simp add: Let_def)

text \<open>
  Claim C4, as amended. Within one fingerprint class the candidate pairs are exactly the
  pairs of a cached node other than the root with a live file whose score is positive (the
  score is never negative for paths shorter than \<open>2^31\<close> bytes, so the dropped pairs are
  those of score 0); sorting keeps the pairs and puts them in descending order of score; at
  its turn a pair is skipped exactly when its node has an fsid other than \<open>UNDEF\<close> or its fsid
  is among those consumed in this class, and otherwise \<^verbatim>\<open>setfsid\<close> is called on the node, the
  fsid is recorded as consumed and the count goes up by one. The consumed fsids are pairwise
  distinct and as many as the assignments. \<^verbatim>\<open>assignFilesystemIdsImpl\<close> does this for each
  fingerprint that has nodes and files, starting with no fsid consumed.
\<close>

theorem C4_greedy_fsid_assignment:
  "(e \<in> set (classElements sep localroot nodePathOf nodeRange fileRange) \<longleftrightarrow>
      (\<exists>l\<in>set nodeRange. \<exists>file\<in>set fileRange.
         l \<noteq> localroot \<and>
         0 < computeReversePathMatchScore sep (nodePathOf l) (ff_path file) \<and>
         e = \<lparr>el_score = computeReversePathMatchScore sep (nodePathOf l) (ff_path file),
              el_fsid = ff_fsid file, el_l = l\<rparr>)) \<and>
   (length path1 < 2 ^ 31 \<longrightarrow> 0 \<le> computeReversePathMatchScore sep path1 path2) \<and>
   mset (sortElements es) = mset es \<and>
   sorted_wrt (\<lambda>a b. el_score b \<le> el_score a) (sortElements es) \<and>
   assignLoop (pre @ e' # post) s =
     assignLoop post
       (case assignLoop pre s of
          (hs, usedFsIds, assignmentCount) \<Rightarrow>
            if fsid (fst hs (el_l e')) \<noteq> UNDEF \<or> el_fsid e' \<in> set usedFsIds
            then (hs, usedFsIds, assignmentCount)
            else (setfsid (el_l e') (el_fsid e') hs, el_fsid e' # usedFsIds, assignmentCount + 1)) \<and>
   (assignLoop es (hs0, [], n) = (hs1, used1, n1) \<longrightarrow>
      distinct used1 \<and> n1 = n + length used1 \<and> set used1 \<subseteq> el_fsid ` set es) \<and>
   (mm_equal_range (LightFileFingerprintCmp env) localnodes fp \<noteq> [] \<and>
    mm_equal_range (LightFileFingerprintCmp env) files fp \<noteq> [] \<longrightarrow>
      assignFilesystemIdsImpl_loop env localroot nodePathOf (fp # fps) (localnodes, files, hs0, n) =
        (case assignLoop (sortElements (classElements (localseparator env) localroot nodePathOf
                    (mm_equal_range (LightFileFingerprintCmp env) localnodes fp)
                    (mm_equal_range (LightFileFingerprintCmp env) files fp))) (hs0, [], n) of
           (hs', usedFsIds, n') \<Rightarrow>
             assignFilesystemIdsImpl_loop env localroot nodePathOf fps
               (mm_erase (LightFileFingerprintCmp env) fp localnodes,
                mm_erase (LightFileFingerprintCmp env) fp files, hs', n')))"
proof -
  have step: "assignLoop (pre @ e' # post) s =
     assignLoop post
       (case assignLoop pre s of
          (hs, usedFsIds, assignmentCount) \<Rightarrow>
            if fsid (fst hs (el_l e')) \<noteq> UNDEF \<or> el_fsid e' \<in> set usedFsIds
            then (hs, usedFsIds, assignmentCount)
            else (setfsid (el_l e') (el_fsid e') hs, el_fsid e' # usedFsIds, assignmentCount + 1))"
    by (cases "assignLoop pre s") (simp add: assignLoop_split assignStep_cases)
  have used: "assignLoop es (hs0, [], n) = (hs1, used1, n1) \<longrightarrow>
      distinct used1 \<and> n1 = n + length used1 \<and> set used1 \<subseteq> el_fsid ` set es"
    using assignLoop_used [of es hs0 "[]" n hs1 used1 n1] by auto
  show ?thesis
    using classElements_iff [of e sep localroot nodePathOf nodeRange fileRange]
      score_nonneg [of path1 sep path2] mset_sortElements [of es] sorted_sortElements [of es]
      step used impl_loop_class [of env localnodes fp files localroot nodePathOf fps hs0 n]
    by (intro conjI impI) blast+
qed

theorem C4_greedy_fsid_assignment_witness:
  "length ''/r/a/x'' < (2::nat) ^ 31 \<and>
   0 \<le> computeReversePathMatchScore CHR ''/'' ''/r/a/x'' ''/r/b/x'' \<and>
   ex_class_elements =
     [\<lparr>el_score = 3, el_fsid = 100, el_l = 1\<rparr>, \<lparr>el_score = 3, el_fsid = 200, el_l = 2\<rparr>,
      \<lparr>el_score = 1, el_fsid = 200, el_l = 1\<rparr>, \<lparr>el_score = 1, el_fsid = 100, el_l = 2\<rparr>] \<and>
   fst (snd (assignLoop ex_class_elements ((ex_heap, ex_index), [], 0))) = [200, 100] \<and>
   distinct (fst (snd (assignLoop ex_class_elements ((ex_heap, ex_index), [], 0)))) \<and>
   snd (snd (assignLoop ex_class_elements ((ex_heap, ex_index), [], 0))) = 2 \<and>
   fsid (fst (fst (assignLoop ex_class_elements ((ex_heap, ex_index), [], 0))) 1) = 100 \<and>
   fsid (fst (fst (assignLoop ex_class_elements ((ex_heap, ex_index), [], 0))) 2) = 200"
proof -
  let ?r = "assignLoop ex_class_elements ((ex_heap, ex_index), [], 0)"
  have len: "length ''/r/a/x'' < (2::nat) ^ 31" by simp
  have els: "ex_class_elements =
     [\<lparr>el_score = 3, el_fsid = 100, el_l = 1\<rparr>, \<lparr>el_score = 3, el_fsid = 200, el_l = 2\<rparr>,
      \<lparr>el_score = 1, el_fsid = 200, el_l = 1\<rparr>, \<lparr>el_score = 1, el_fsid = 100, el_l = 2\<rparr>]"
    by code_simp
  have used: "fst (snd ?r) = [200, 100]" by code_simp
  have f1: "fsid (fst (fst ?r) 1) = 100" by code_simp
  have f2: "fsid (fst (fst ?r) 2) = 200" by code_simp
  have eq: "?r = (fst ?r, fst (snd ?r), snd (snd ?r))" by simp
  note T = C4_greedy_fsid_assignment
      [where sep = "CHR ''/''" and ?path1.0 = "''/r/a/x''" and ?path2.0 = "''/r/b/x''"
         and es = ex_class_elements and ?hs0.0 = "(ex_heap, ex_index)" and n = 0
         and ?hs1.0 = "fst ?r" and ?used1.0 = "fst (snd ?r)" and ?n1.0 = "snd (snd ?r)"]
  from T len have nn: "0 \<le> computeReversePathMatchScore CHR ''/'' ''/r/a/x'' ''/r/b/x''" by blast
  from T eq have "distinct (fst (snd ?r)) \<and> snd (snd ?r) = 0 + length (fst (snd ?r))" by blast
  with used have "distinct (fst (snd ?r))" "snd (snd ?r) = 2" by simp_all
  with len nn els used f1 f2 show ?thesis by blast
qed

text \<open>
  The claim as stated, with all cached nodes forming pairs, fails at the root: the root and
  the file at the root path have a positive score, the root has no fsid and the file's fsid
  is not consumed, yet no pair is formed and the root's fsid stays \<open>UNDEF\<close>.
\<close>

theorem C4_root_pair_counterexample:
  "ln_ptr (lnf ex_root) = 0 \<and>
   getLocalPath CHR ''/'' ex_root 0 = ''/r'' \<and>
   0 < computeReversePathMatchScore CHR ''/'' (getLocalPath CHR ''/'' ex_root 0) ''/r'' \<and>
   classElements CHR ''/'' 0 (getLocalPath CHR ''/'' ex_root) [0] [\<lparr>ff_fsid = 1, ff_path = ''/r''\<rparr>] = [] \<and>
   fsid (cleared ex_heap {0} 0) = UNDEF \<and>
   fsid (fst (fst (assignLoop
      (sortElements (classElements CHR ''/'' 0 (getLocalPath CHR ''/'' ex_root) [0]
         [\<lparr>ff_fsid = 1, ff_path = ''/r''\<rparr>]))
      ((cleared ex_heap {0}, ex_index), [], 0))) 0) = UNDEF"
  by code_simp

section \<open>Claims about notifications\<close>

text \<open>
  A node is returned only with an empty residual path; with a residual path the result is
  null, and \<^verbatim>\<open>procscanq\<close> then sets no flag at all.
\<close>

lemma localnodebypath_loop_full:
  "localnodebypath_loop sep localpath i l parent = (Some d, p, r) \<Longrightarrow> r = []"
proof (induction sep localpath i l parent rule: localnodebypath_loop.induct)
  case (1 sep localpath subpathIndex l parent)
  show ?case
  proof (cases "nextPathComponent sep localpath subpathIndex")
    case None
    with "1.prems" show ?thesis by (simp add: localnodebypath_loop.simps)
  next
    case (Some a)
    obtain component j where a: "a = (component, j)" by (cases a)
    show ?thesis
    proof (cases "findChild l component")
      case None
      with "1.prems" Some a show ?thesis by (simp add: localnodebypath_loop.simps)
    next
      case (Some ch)
      with "1.prems" \<open>nextPathComponent sep localpath subpathIndex = Some a\<close> a
      have "localnodebypath_loop sep localpath j ch (Some l) = (Some d, p, r)"
        by (simp add: localnodebypath_loop.simps)
      with "1.IH" [OF \<open>nextPathComponent sep localpath subpathIndex = Some a\<close> a [symmetric] Some]
      show ?thesis by simp
    qed
  qed
qed

lemma localnodebypath_full:
  "localnodebypath c localroot l localpath = (Some d, p, r) \<Longrightarrow> r = []"
  by (auto simp: localnodebypath_def split: option.splits dest: localnodebypath_loop_full)

lemma procscanq_residual:
  "localnodebypath c localroot (case n of NotifNode x \<Rightarrow> Some x | _ \<Rightarrow> None) path = (None, p, r) \<Longrightarrow>
   procscanq c localroot [\<lparr>nt_localnode = n, nt_path = path, nt_timestamp = t\<rparr>] st = Inr st"
  by simp

lemma procscanq_resolved:
  "localnodebypath c localroot (Some x) path = (Some d, p, r) \<Longrightarrow> \<not> isnetwork c \<Longrightarrow>
   procscanq c localroot [\<lparr>nt_localnode = NotifNode x, nt_path = path, nt_timestamp = t\<rparr>] st =
     Inr (st\<lparr>st_heap := setFutureSync (ln_ptr (lnf d)) SYNCTREE_ACTION_HERE_ONLY
                 (setFutureScan (ln_ptr (lnf d)) SYNCTREE_ACTION_HERE_ONLY (st_heap st)),
              st_quietTime := waiter_ds c + SCANNING_DELAY_DS\<rparr>)"
  using localnodebypath_full [of c localroot "Some x" path d p r] by simp

text \<open>
  Claim C2, at a notification for the new file \<^verbatim>\<open>new.txt\<close> in the sync root: the path leaves
  the residual \<^verbatim>\<open>new.txt\<close> below the root, which is the deepest resolved node;
  \<^verbatim>\<open>localnodebypath\<close> returns null, \<^verbatim>\<open>procscanq\<close> leaves the state as it was, and the root's
  \<open>scanAgain\<close> is still \<open>resolved\<close>, not \<open>here-and-below\<close>.
\<close>

theorem C2_residual_path_not_flagged:
  "localnodebypath ex_client ex_root (Some ex_root) ''new.txt'' = (None, Some ex_root, ''new.txt'') \<and>
   procscanq ex_client ex_root [ex_notification] (ex_state SYNCTREE_RESOLVED)
     = Inr (ex_state SYNCTREE_RESOLVED) \<and>
   scanAgain (st_heap (ex_state SYNCTREE_RESOLVED) (ln_ptr (lnf ex_root))) = SYNCTREE_RESOLVED"
proof -
  have a: "localnodebypath ex_client ex_root (Some ex_root) ''new.txt'' = (None, Some ex_root, ''new.txt'')"
    by code_simp
  have b: "procscanq ex_client ex_root [ex_notification] (ex_state SYNCTREE_RESOLVED)
     = Inr (ex_state SYNCTREE_RESOLVED)"
    by (simp add: ex_notification_def a)
  have c: "scanAgain (st_heap (ex_state SYNCTREE_RESOLVED) (ln_ptr (lnf ex_root))) = SYNCTREE_RESOLVED"
    by (simp add: ex_state_def ex_root_def ex_folder_def ex_heap_def)
  from a b c show ?thesis by blast
qed

section \<open>Claims about \<^verbatim>\<open>syncItem\<close> and \<^verbatim>\<open>recursiveSync\<close>\<close>

text \<open>
  Claim C3, as amended. For a row whose cloud view is present and whose sync and filesystem
  views are absent, \<^verbatim>\<open>syncItem\<close> does nothing: the row and the state, with its events and
  its heap, are returned as they were.
\<close>

theorem C3_cloud_only_row_no_action:
  "cloudNode row \<noteq> CloudNull \<and> syncNode row = None \<and> fsNode row = None \<Longrightarrow>
   syncItem c row parentRow fullPath st = Inr (row, st)"
  by (simp add: syncItem_def)

theorem C3_cloud_only_row_no_action_witness:
  "cloudNode ex_cloud_only_row \<noteq> CloudNull \<and> syncNode ex_cloud_only_row = None \<and>
   fsNode ex_cloud_only_row = None \<and>
   syncItem ex_client ex_cloud_only_row ex_row ''/r/new.txt'' (ex_state SYNCTREE_RESOLVED)
     = Inr (ex_cloud_only_row, ex_state SYNCTREE_RESOLVED)"
proof -
  have h: "cloudNode ex_cloud_only_row \<noteq> CloudNull \<and> syncNode ex_cloud_only_row = None \<and>
     fsNode ex_cloud_only_row = None"
    by (simp add: ex_cloud_only_row_def)
  from C3_cloud_only_row_no_action [OF h, of ex_client ex_row "''/r/new.txt''" "ex_state SYNCTREE_RESOLVED"] h
  show ?thesis by simp
qed

text \<open>
  The claim as stated fails at the cloud-only row for \<^verbatim>\<open>new.txt\<close>: afterwards there is no
  event (no download is scheduled), the row still has no sync node, and no flag has changed.
\<close>

theorem C3_no_download_counterexample:
  "st_events (ex_state SYNCTREE_RESOLVED) = [] \<and>
   (case syncItem ex_client ex_cloud_only_row ex_row ''/r/new.txt'' (ex_state SYNCTREE_RESOLVED) of
      Inl f \<Rightarrow> False
    | Inr (row', st') \<Rightarrow> st_events st' = [] \<and> syncNode row' = None \<and>
        scanAgain (st_heap st' 0) = scanAgain (st_heap (ex_state SYNCTREE_RESOLVED) 0))"
  by (simp add: syncItem_def ex_cloud_only_row_def ex_state_def)

lemma dispatchRows_site:
  "dispatchRows rec c row parent localPath rows st = Some (Inr (res, site, st')) \<Longrightarrow>
   site = RetDone \<or> site = RetChildFailed"
proof (induction rows arbitrary: st)
  case Nil
  then show ?case by simp
next
  case (Cons childRow rest)
  show ?case
  proof (cases "cloudNode childRow = NAME_CONFLICT")
    case True
    with Cons show ?thesis by simp
  next
    case False
    with Cons.prems Cons.IH show ?thesis
      by (auto split: sum.splits prod.splits if_splits option.splits)
  qed
qed

lemma recursiveSync_site:
  "recursiveSync fuel c row localPath st = Some (Inr (res, site, st')) \<Longrightarrow> site \<noteq> RetNoSyncNode"
proof (cases fuel)
  case 0
  assume "recursiveSync fuel c row localPath st = Some (Inr (res, site, st'))"
  with 0 show ?thesis by simp
next
  case (Suc n)
  assume r: "recursiveSync fuel c row localPath st = Some (Inr (res, site, st'))"
  show ?thesis
  proof
    assume s: "site = RetNoSyncNode"
    from r Suc s show False
      by (auto simp: Let_def split: option.splits if_splits sum.splits bool.splits prod.splits
          dest!: dispatchRows_site)
  qed
qed

text \<open>
  Claim C9. With a null \<open>row.syncNode\<close>, \<^verbatim>\<open>recursiveSync\<close> faults at its first test, before
  the test for null; and a call that returns has a non-null \<open>row.syncNode\<close> and never
  returns from the branch for a missing sync node.
\<close>

theorem C9_null_syncNode_dereferenced:
  "(syncNode row = None \<longrightarrow> recursiveSync (Suc n) c row localPath st = Some (Inl NullDeref)) \<and>
   (recursiveSync fuel c row localPath st = Some (Inr (res, site, st')) \<longrightarrow>
      syncNode row \<noteq> None \<and> site \<noteq> RetNoSyncNode)"
proof (intro conjI impI)
  assume "syncNode row = None"
  then show "recursiveSync (Suc n) c row localPath st = Some (Inl NullDeref)" by simp
next
  assume r: "recursiveSync fuel c row localPath st = Some (Inr (res, site, st'))"
  show "syncNode row \<noteq> None"
  proof
    assume "syncNode row = None"
    with r show False by (cases fuel) simp_all
  qed
next
  assume r: "recursiveSync fuel c row localPath st = Some (Inr (res, site, st'))"
  then show "site \<noteq> RetNoSyncNode" by (rule recursiveSync_site)
qed

theorem C9_null_syncNode_dereferenced_witness:
  "syncNode (ex_row\<lparr>syncNode := None\<rparr>) = None \<and>
   recursiveSync (Suc 0) ex_client (ex_row\<lparr>syncNode := None\<rparr>) ''/r'' (ex_state SYNCTREE_ACTION_HERE_ONLY)
     = Some (Inl NullDeref) \<and>
   (\<exists>st'. recursiveSync 2 ex_client ex_row ''/r'' (ex_state SYNCTREE_ACTION_HERE_ONLY)
            = Some (Inr (True, RetDone, st'))) \<and>
   syncNode ex_row \<noteq> None \<and> RetDone \<noteq> RetNoSyncNode"
proof -
  have a: "syncNode (ex_row\<lparr>syncNode := None\<rparr>) = None" by simp
  have "case recursiveSync 2 ex_client ex_row ''/r'' (ex_state SYNCTREE_ACTION_HERE_ONLY) of
          Some (Inr (res, site, st')) \<Rightarrow> res \<and> site = RetDone | _ \<Rightarrow> False"
    by code_simp
  then obtain st' where b: "recursiveSync 2 ex_client ex_row ''/r'' (ex_state SYNCTREE_ACTION_HERE_ONLY)
            = Some (Inr (True, RetDone, st'))"
    by (auto split: option.splits sum.splits)
  from C9_null_syncNode_dereferenced [of "ex_row\<lparr>syncNode := None\<rparr>" 0 ex_client "''/r''"
       "ex_state SYNCTREE_ACTION_HERE_ONLY"] a
  have 1: "recursiveSync (Suc 0) ex_client (ex_row\<lparr>syncNode := None\<rparr>) ''/r'' (ex_state SYNCTREE_ACTION_HERE_ONLY)
     = Some (Inl NullDeref)" by blast
  from C9_null_syncNode_dereferenced [where row = ex_row and c = ex_client and localPath = "''/r''"
       and st = "ex_state SYNCTREE_ACTION_HERE_ONLY" and fuel = 2 and res = True and site = RetDone
       and st' = st'] b
  have 2: "syncNode ex_row \<noteq> None \<and> RetDone \<noteq> RetNoSyncNode" by blast
  from a b 1 2 show ?thesis by blast
qed

lemma dispatchRows_recursion:
  "cloudNode childRow \<noteq> NAME_CONFLICT \<Longrightarrow>
   syncItem c childRow row (childPath c localPath childRow) st = Inr (childRow', st1) \<Longrightarrow>
   recurseCondition row \<Longrightarrow>
   dispatchRows (\<lambda>r p s. None) c row parent localPath (childRow # rest) st = None"
  by simp

lemma dispatchRows_no_recursion:
  "\<not> recurseCondition row \<Longrightarrow>
   dispatchRows rec c row parent localPath rows st = dispatchRows rec' c row parent localPath rows st"
  by (induction rows arbitrary: st) (auto split: sum.splits)

text \<open>
  Claim C1, at the root row with all three views, whose folder is due for a full scan and
  holds two files that are not in the cloud. Both child rows lack a cloud view and their sync
  nodes are files, yet the loop calls \<^verbatim>\<open>recursiveSync\<close> on the first of them: with fuel for
  one call only the run does not end, and with more the callee dereferences the null cloud
  pointer of the child row. With the folder due for a scan of this level only, the children's
  flags are resolved and the calls return at once.
\<close>

theorem C1_recursion_ignores_child_views:
  "recurseCondition ex_row \<and>
   map (\<lambda>r. (cloudNode r, map_option (\<lambda>l. ln_type (lnf l)) (syncNode r)))
       (buildChildRows ex_client (fst (scanOne ex_client ''/r'')) (children ex_root) [])
     = [(CloudNull, Some FILENODE), (CloudNull, Some FILENODE)] \<and>
   rs_outcome (recursiveSync 1 ex_client ex_row ''/r'' (ex_state SYNCTREE_ACTION_HERE_AND_BELOW)) = None \<and>
   rs_outcome (recursiveSync 2 ex_client ex_row ''/r'' (ex_state SYNCTREE_ACTION_HERE_AND_BELOW))
     = Some (Inl NullDeref) \<and>
   rs_outcome (recursiveSync 2 ex_client ex_row ''/r'' (ex_state SYNCTREE_ACTION_HERE_ONLY))
     = Some (Inr (True, RetDone,
          [StartXferPut 1 77, SyncupdatePut 1 ''/r/x'', StartXferPut 2 77, SyncupdatePut 2 ''/r/y'']))"
  by code_simp

section \<open>Claims about name conflicts\<close>

lemma nameCmp_iff: "nameCmp c a b \<longleftrightarrow> nameKey c a < nameKey c b"
  by (auto simp: nameCmp_def nameCmp_compare_def)

lemma cloudCmpFS_iff: "cloudCmpFS c a b \<longleftrightarrow> fsKey c a < fsKey c b"
  by (simp add: cloudCmpFS_def nameCmp_iff fsKey_def)

subsection \<open>sort_by\<close>

lemma mset_insort_by: "mset (insort_by lt x xs) = add_mset x (mset xs)"
  by (induction xs) auto

lemma mset_sort_by: "mset (sort_by lt xs) = mset xs"
  unfolding sort_by_def by (induction xs) (auto simp: mset_insort_by)

lemma set_sort_by: "set (sort_by lt xs) = set xs"
  using mset_sort_by [of lt xs] by (metis set_mset_mset)

lemma set_insort_by: "set (insort_by lt x xs) = insert x (set xs)"
  using mset_insort_by [of lt x xs] by (metis set_mset_mset set_mset_add_mset_insert)

lemma sorted_insort_by:
  fixes key :: "'a \<Rightarrow> 'k::linorder"
  assumes "\<And>a b. lt a b \<longleftrightarrow> key a < key b"
  shows "sorted (map key xs) \<Longrightarrow> sorted (map key (insort_by lt x xs))"
  by (induction xs) (auto simp: assms set_insort_by)

lemma sorted_sort_by:
  fixes key :: "'a \<Rightarrow> 'k::linorder"
  assumes "\<And>a b. lt a b \<longleftrightarrow> key a < key b"
  shows "sorted (map key (sort_by lt xs))"
  unfolding sort_by_def by (induction xs) (auto intro: sorted_insort_by [OF assms])

subsection \<open>groups of a sorted list\<close>

lemma equalCount_sorted:
  fixes key :: "'a \<Rightarrow> 'k::linorder"
  assumes lt: "\<And>a b. lt a b \<longleftrightarrow> key a < key b"
    and s: "sorted (map key (f # fr))"
  shows "\<forall>y\<in>set (take (equalCount lt (f # fr)) (f # fr)). key y = key f"
    and "\<forall>y\<in>set (drop (equalCount lt (f # fr)) (f # fr)). key f < key y"
    and "equalCount lt (f # fr) = length (filter (\<lambda>y. key y = key f) (f # fr))"
    and "0 < equalCount lt (f # fr)"
proof -
  let ?P = "\<lambda>y. \<not> lt f y"
  let ?xs = "f # fr"
  have n: "equalCount lt ?xs = length (takeWhile ?P ?xs)" by (simp add: equalCount_def)
  have tk: "take (equalCount lt ?xs) ?xs = takeWhile ?P ?xs"
    unfolding n by (rule takeWhile_eq_take [symmetric])
  have dr: "drop (equalCount lt ?xs) ?xs = dropWhile ?P ?xs"
    unfolding n by (rule dropWhile_eq_drop [symmetric])
  have ge: "\<forall>y\<in>set ?xs. key f \<le> key y" using s by auto
  show 1: "\<forall>y\<in>set (take (equalCount lt ?xs) ?xs). key y = key f"
  proof
    fix y assume "y \<in> set (take (equalCount lt ?xs) ?xs)"
    then have "y \<in> set (takeWhile ?P ?xs)" by (simp only: tk)
    then have "y \<in> set ?xs" "?P y" by (auto dest: set_takeWhileD)
    with ge lt show "key y = key f" by force
  qed
  show 2: "\<forall>y\<in>set (drop (equalCount lt ?xs) ?xs). key f < key y"
  proof
    fix y assume y: "y \<in> set (drop (equalCount lt ?xs) ?xs)"
    then have yd: "y \<in> set (dropWhile ?P ?xs)" by (simp only: dr)
    then have ne: "dropWhile ?P ?xs \<noteq> []" by (metis empty_iff empty_set)
    then have h: "\<not> ?P (hd (dropWhile ?P ?xs))" by (rule hd_dropWhile)
    have "sorted (map key (dropWhile ?P ?xs))"
      using s by (metis sorted_map sorted_wrt_dropWhile) 
    then have "key (hd (dropWhile ?P ?xs)) \<le> key y" using yd ne
      by (cases "dropWhile ?P ?xs") auto
    with h lt show "key f < key y" by auto
  qed
  have "filter (\<lambda>y. key y = key f) ?xs
      = filter (\<lambda>y. key y = key f) (take (equalCount lt ?xs) ?xs)
        @ filter (\<lambda>y. key y = key f) (drop (equalCount lt ?xs) ?xs)"
    by (metis append_take_drop_id filter_append)
  also have "filter (\<lambda>y. key y = key f) (take (equalCount lt ?xs) ?xs) = take (equalCount lt ?xs) ?xs"
    using 1 by (simp only: filter_True)
  also have "filter (\<lambda>y. key y = key f) (drop (equalCount lt ?xs) ?xs) = []"
    using 2 by (auto simp: filter_empty_conv)
  finally have "length (filter (\<lambda>y. key y = key f) ?xs) = length (take (equalCount lt ?xs) ?xs)"
    by simp
  then show "equalCount lt ?xs = length (filter (\<lambda>y. key y = key f) ?xs)"
    using equalCount_le [of lt ?xs] by simp
  show "0 < equalCount lt ?xs" using lt by (intro equalCount_pos) auto
qed

subsection \<open>the first pairing loop\<close>

lemma pairFsSync_this_cases:
  "pairFsSync_this c fs sy = (tf, ts) \<Longrightarrow>
   (tf = None \<or> (\<exists>fr. fs = the tf # fr \<and> tf = Some (the tf))) \<and>
   (ts = None \<or> (\<exists>lr. sy = the ts # lr \<and> ts = Some (the ts))) \<and>
   (tf = None \<and> ts = None \<longrightarrow> fs = [] \<and> sy = [])"
  by (cases fs; cases sy)
     (auto simp: pairFsSync_this_def first_of_def Let_def split: if_splits)

lemma pairFsSync_unfold:
  "pairFsSync_this c fs sy = (tf, ts) \<Longrightarrow>
   pairFsSync c fs sy =
     (if tf = None \<and> ts = None then []
      else \<lparr>cloudNode = (if tf \<noteq> None \<and> equalCount (cloudCmpFS c) fs > 1 then NAME_CONFLICT else CloudNull),
            syncNode = ts, fsNode = tf\<rparr>
           # pairFsSync c (if tf \<noteq> None then drop (equalCount (cloudCmpFS c) fs) fs else fs)
                          (if ts \<noteq> None then drop (equalCount (cloudCmpSync c) sy) sy else sy))"
  by (subst pairFsSync.simps) (auto simp: Let_def)

lemma pairFsSync_rows_ok:
  "sorted (map (fsKey c) fs) \<Longrightarrow> fs_rows_ok c fs (pairFsSync c fs sy)"
proof (induction c fs sy rule: pairFsSync.induct)
  case (1 c fs sy)
  obtain tf ts where pft: "pairFsSync_this c fs sy = (tf, ts)"
    by (cases "pairFsSync_this c fs sy") auto
  note U = pairFsSync_unfold [OF pft]
  note C = pairFsSync_this_cases [OF pft]
  let ?n = "equalCount (cloudCmpFS c) fs"
  let ?m = "equalCount (cloudCmpSync c) sy"
  let ?sy' = "if ts \<noteq> None then drop ?m sy else sy"
  have IH0: "\<not> (tf = None \<and> ts = None) \<Longrightarrow>
      sorted (map (fsKey c) (if tf \<noteq> None then drop ?n fs else fs)) \<Longrightarrow>
      fs_rows_ok c (if tf \<noteq> None then drop ?n fs else fs)
        (pairFsSync c (if tf \<noteq> None then drop ?n fs else fs) ?sy')"
    using "1.IH" [OF refl refl refl refl] by (simp add: pft)
  show ?case
  proof (cases "tf = None \<and> ts = None")
    case True
    with C have "fs = []" by simp
    with True U show ?thesis by (simp add: fs_rows_ok_def)
  next
    case nb: False
    show ?thesis
    proof (cases tf)
      case None
      with nb obtain l where ts: "ts = Some l" by auto
      have IH: "fs_rows_ok c fs (pairFsSync c fs ?sy')"
        using IH0 None nb "1.prems" by simp
      have U': "pairFsSync c fs sy = \<lparr>cloudNode = CloudNull, syncNode = Some l, fsNode = None\<rparr>
                  # pairFsSync c fs ?sy'"
        using U None ts by simp
      show ?thesis
        unfolding U' using IH
        by (auto simp: fs_rows_ok_def rowHasFsKey_def row_unnamed_def)
    next
      case (Some f)
      with C obtain fr where fs: "fs = f # fr" by auto
      define n where "n = equalCount (cloudCmpFS c) fs"
      define rest where "rest = pairFsSync c (drop n fs) ?sy'"
      have lt: "\<And>a b. cloudCmpFS c a b \<longleftrightarrow> fsKey c a < fsKey c b" by (rule cloudCmpFS_iff)
      have s: "sorted (map (fsKey c) (f # fr))" using "1.prems" fs by simp
      note E0 = equalCount_sorted [of "cloudCmpFS c" "fsKey c" f fr, OF lt s]
      have E1: "\<forall>y\<in>set (take n fs). fsKey c y = fsKey c f" using E0(1) by (simp only: n_def fs)
      have E2: "\<forall>y\<in>set (drop n fs). fsKey c f < fsKey c y" using E0(2) by (simp only: n_def fs)
      have E3: "n = length (filter (\<lambda>y. fsKey c y = fsKey c f) fs)" using E0(3) by (simp only: n_def fs)
      have E4: "0 < n" using E0(4) by (simp only: n_def fs)
      have sd: "sorted (map (fsKey c) (drop n fs))"
        using "1.prems" by (metis drop_map sorted_wrt_drop)
      have IH: "fs_rows_ok c (drop n fs) rest"
        using IH0 Some sd by (simp add: n_def rest_def)
      have U': "pairFsSync c fs sy =
           \<lparr>cloudNode = (if n > 1 then NAME_CONFLICT else CloudNull), syncNode = ts, fsNode = Some f\<rparr>
           # rest"
        using U Some by (simp add: n_def rest_def)
      have fin: "f \<in> set (take n fs)" using E4 by (cases n) (auto simp: fs)
      have su: "set fs = set (take n fs) \<union> set (drop n fs)"
        using set_append [of "take n fs" "drop n fs"] by (simp only: append_take_drop_id)
      have tk: "fsKey c ` set (take n fs) = {fsKey c f}"
      proof
        show "fsKey c ` set (take n fs) \<subseteq> {fsKey c f}" using E1 by blast
        show "{fsKey c f} \<subseteq> fsKey c ` set (take n fs)" using fin by blast
      qed
      have keys: "fsKey c ` set fs = insert (fsKey c f) (fsKey c ` set (drop n fs))"
        by (simp only: su image_Un tk) simp
      have notin: "fsKey c f \<notin> fsKey c ` set (drop n fs)" using E2 by auto
      have cnt: "\<And>g. g \<in> set (drop n fs) \<Longrightarrow>
          length (filter (\<lambda>x. fsKey c x = fsKey c g) fs)
            = length (filter (\<lambda>x. fsKey c x = fsKey c g) (drop n fs))"
      proof -
        fix g assume g: "g \<in> set (drop n fs)"
        then have "fsKey c f < fsKey c g" using E2 by simp
        then have "filter (\<lambda>x. fsKey c x = fsKey c g) (take n fs) = []"
          using E1 by (auto simp: filter_empty_conv)
        moreover have "filter (\<lambda>x. fsKey c x = fsKey c g) fs
           = filter (\<lambda>x. fsKey c x = fsKey c g) (take n fs) @ filter (\<lambda>x. fsKey c x = fsKey c g) (drop n fs)"
          using filter_append [of "\<lambda>x. fsKey c x = fsKey c g" "take n fs" "drop n fs"]
          by (simp only: append_take_drop_id)
        ultimately show "length (filter (\<lambda>x. fsKey c x = fsKey c g) fs)
            = length (filter (\<lambda>x. fsKey c x = fsKey c g) (drop n fs))" by simp
      qed
      have sub: "set (drop n fs) \<subseteq> set fs" by (rule set_drop_subset)
      have A: "\<forall>k. length (filter (rowHasFsKey c k) (pairFsSync c fs sy))
                 = (if k \<in> fsKey c ` set fs then 1 else 0)"
      proof
        fix k
        have r: "length (filter (rowHasFsKey c k) rest) = (if k \<in> fsKey c ` set (drop n fs) then 1 else 0)"
          using IH by (simp add: fs_rows_ok_def)
        show "length (filter (rowHasFsKey c k) (pairFsSync c fs sy))
                 = (if k \<in> fsKey c ` set fs then 1 else 0)"
        proof (cases "k = fsKey c f")
          case True
          with notin r show ?thesis by (simp add: U' rowHasFsKey_def keys)
        next
          case False
          with r show ?thesis by (simp add: U' rowHasFsKey_def keys)
        qed
      qed
      have B: "\<forall>r\<in>set (pairFsSync c fs sy). \<not> row_unnamed r \<and>
        (case fsNode r of
           None \<Rightarrow> cloudNode r = CloudNull
         | Some g \<Rightarrow> g \<in> set fs \<and>
             cloudNode r = (if 1 < length (filter (\<lambda>f. fsKey c f = fsKey c g) fs)
                           then NAME_CONFLICT else CloudNull))"
      proof
        fix r assume "r \<in> set (pairFsSync c fs sy)"
        then consider (hd) "r = \<lparr>cloudNode = (if n > 1 then NAME_CONFLICT else CloudNull), syncNode = ts, fsNode = Some f\<rparr>"
          | (tl) "r \<in> set rest"
          unfolding U' by auto
        then show "\<not> row_unnamed r \<and>
          (case fsNode r of
             None \<Rightarrow> cloudNode r = CloudNull
           | Some g \<Rightarrow> g \<in> set fs \<and>
               cloudNode r = (if 1 < length (filter (\<lambda>f. fsKey c f = fsKey c g) fs)
                             then NAME_CONFLICT else CloudNull))"
        proof cases
          case hd
          have "f \<in> set fs" by (simp add: fs)
          with hd E3 show ?thesis by (simp add: row_unnamed_def)
        next
          case tl
          with IH have r: "\<not> row_unnamed r" "(case fsNode r of
               None \<Rightarrow> cloudNode r = CloudNull
             | Some g \<Rightarrow> g \<in> set (drop n fs) \<and>
                 cloudNode r = (if 1 < length (filter (\<lambda>f. fsKey c f = fsKey c g) (drop n fs))
                               then NAME_CONFLICT else CloudNull))"
            by (auto simp: fs_rows_ok_def)
          show ?thesis
          proof (cases "fsNode r")
            case None
            with r show ?thesis by simp
          next
            case (Some g)
            with r have "g \<in> set (drop n fs)" by simp
            with r Some cnt [of g] sub show ?thesis by auto
          qed
        qed
      qed
      from A B show ?thesis unfolding fs_rows_ok_def by blast
    qed
  qed
qed

subsection \<open>the second pairing loop\<close>

lemma row_kept_refl: "row_kept r r"
  by (simp add: row_kept_def)

lemma list_all2_row_kept_refl: "list_all2 row_kept rs rs"
  by (simp add: list_all2_refl row_kept_refl)

lemma cloud_ptr_of_not_conflict: "cloud_ptr_of x \<noteq> NAME_CONFLICT"
  by (cases x) (simp_all add: cloud_ptr_of_def)

lemma pairCloud_this_cases:
  "pairCloud_this c cl rows = (tc, tr) \<Longrightarrow>
   (tr = None \<or> (\<exists>rr. rows = the tr # rr \<and> tr = Some (the tr)))"
  by (cases cl; cases rows)
     (auto simp: pairCloud_this_def first_of_def Let_def split: if_splits option.splits)

lemma pairCloudRows_unfold:
  "pairCloud_this c cl rows = (tc, tr) \<Longrightarrow>
   pairCloudRows c cl rows =
     (if tc = None \<and> tr = None then (rows, [])
      else
        (let rest = pairCloudRows c (if tc \<noteq> None then drop (equalCount (localCmpNode c) cl) cl else cl)
                      (if tr \<noteq> None then drop (equalCount (localCmpRow c) rows) rows else rows);
             passed = (if tr \<noteq> None then take (equalCount (localCmpRow c) rows) rows else [])
         in if tc \<noteq> None \<and> equalCount (localCmpNode c) cl > 1
            then (passed @ fst rest, snd rest)
            else (case tr of
                    Some r \<Rightarrow>
                      ((if cloudNode r \<noteq> NAME_CONFLICT
                        then r\<lparr>cloudNode := cloud_ptr_of tc\<rparr> else r) # tl passed @ fst rest,
                       snd rest)
                  | None \<Rightarrow>
                      (passed @ fst rest,
                       \<lparr>cloudNode = cloud_ptr_of tc, syncNode = None, fsNode = None\<rparr> # snd rest))))"
  by (subst pairCloudRows.simps) (simp add: Let_def)

lemma pairCloudRows_ok: "cloud_rows_ok rows (pairCloudRows c cl rows)"
proof (induction c cl rows rule: pairCloudRows.induct)
  case (1 c cl rows)
  obtain tc tr where pct: "pairCloud_this c cl rows = (tc, tr)"
    by (cases "pairCloud_this c cl rows") auto
  define m where "m = equalCount (localCmpRow c) rows"
  define cl' where "cl' = (if tc \<noteq> None then drop (equalCount (localCmpNode c) cl) cl else cl)"
  define rows' where "rows' = (if tr \<noteq> None then drop m rows else rows)"
  define rest where "rest = pairCloudRows c cl' rows'"
  define passed where "passed = (if tr \<noteq> None then take m rows else [])"
  have IH: "\<not> (tc = None \<and> tr = None) \<Longrightarrow> cloud_rows_ok rows' rest"
    using "1.IH" [OF refl refl refl refl]
    unfolding pct fst_conv snd_conv rest_def cl'_def rows'_def m_def .
  have U: "pairCloudRows c cl rows =
     (if tc = None \<and> tr = None then (rows, [])
      else if tc \<noteq> None \<and> equalCount (localCmpNode c) cl > 1
            then (passed @ fst rest, snd rest)
            else (case tr of
                    Some r \<Rightarrow>
                      ((if cloudNode r \<noteq> NAME_CONFLICT
                        then r\<lparr>cloudNode := cloud_ptr_of tc\<rparr> else r) # tl passed @ fst rest,
                       snd rest)
                  | None \<Rightarrow>
                      (passed @ fst rest,
                       \<lparr>cloudNode = cloud_ptr_of tc, syncNode = None, fsNode = None\<rparr> # snd rest)))"
    unfolding pairCloudRows_unfold [OF pct] Let_def rest_def cl'_def rows'_def passed_def m_def ..
  have rows: "rows = passed @ rows'" if "tr \<noteq> None"
    using that by (simp add: passed_def rows'_def)
  have rows_None: "rows' = rows \<and> passed = []" if "tr = None"
    using that by (simp add: passed_def rows'_def)
  show ?case
  proof (cases "tc = None \<and> tr = None")
    case True
    then show ?thesis by (simp add: U cloud_rows_ok_def list_all2_row_kept_refl)
  next
    case nb: False
    note R = IH [OF nb]
    then have R1: "list_all2 row_kept rows' (fst rest)"
      and R2: "\<forall>r\<in>set (snd rest). cloudNode r \<noteq> NAME_CONFLICT \<and> syncNode r = None \<and> fsNode r = None"
      by (simp_all add: cloud_rows_ok_def)
    show ?thesis
    proof (cases tr)
      case None
      with rows_None have e: "rows' = rows" "passed = []" by simp_all
      from None nb R1 R2 show ?thesis
        by (auto simp: U e cloud_rows_ok_def cloud_ptr_of_not_conflict)
    next
      case (Some r)
      with pairCloud_this_cases [OF pct] obtain rr where rr: "rows = r # rr" by auto
      have mpos: "0 < m" unfolding m_def rr by (rule equalCount_pos) (simp_all add: localCmpRow_def)
      then have p: "passed = r # tl passed" using Some by (cases m) (simp_all add: passed_def rr)
      have all_p: "list_all2 row_kept passed passed" by (rule list_all2_row_kept_refl)
      have k: "row_kept r (if cloudNode r \<noteq> NAME_CONFLICT then r\<lparr>cloudNode := cloud_ptr_of tc\<rparr> else r)"
        by (simp add: row_kept_def cloud_ptr_of_not_conflict)
      have "list_all2 row_kept (r # tl passed)
              ((if cloudNode r \<noteq> NAME_CONFLICT then r\<lparr>cloudNode := cloud_ptr_of tc\<rparr> else r) # tl passed)"
        using k by (simp add: list_all2_row_kept_refl)
      then have upd: "list_all2 row_kept passed
              ((if cloudNode r \<noteq> NAME_CONFLICT then r\<lparr>cloudNode := cloud_ptr_of tc\<rparr> else r) # tl passed)"
        using p by simp
      have r0: "rows = passed @ rows'" using rows Some by simp
      show ?thesis
      proof (cases "tc \<noteq> None \<and> equalCount (localCmpNode c) cl > 1")
        case True
        have res: "pairCloudRows c cl rows = (passed @ fst rest, snd rest)"
          unfolding U using True nb by auto
        have "list_all2 row_kept (passed @ rows') (passed @ fst rest)"
          using all_p R1 by (rule list_all2_appendI)
        then have "list_all2 row_kept rows (passed @ fst rest)" by (simp only: r0 [symmetric])
        with R2 show ?thesis by (simp add: res cloud_rows_ok_def)
      next
        case False
        have res: "pairCloudRows c cl rows =
            ((if cloudNode r \<noteq> NAME_CONFLICT then r\<lparr>cloudNode := cloud_ptr_of tc\<rparr> else r) # tl passed @ fst rest,
             snd rest)"
          unfolding U using False nb Some by auto
        have "list_all2 row_kept (passed @ rows')
           (((if cloudNode r \<noteq> NAME_CONFLICT then r\<lparr>cloudNode := cloud_ptr_of tc\<rparr> else r) # tl passed) @ fst rest)"
          using upd R1 by (rule list_all2_appendI)
        then have "list_all2 row_kept rows
           (((if cloudNode r \<noteq> NAME_CONFLICT then r\<lparr>cloudNode := cloud_ptr_of tc\<rparr> else r) # tl passed) @ fst rest)"
          by (simp only: r0 [symmetric])
        with R2 show ?thesis by (simp add: res cloud_rows_ok_def)
      qed
    qed
  qed
qed

subsection \<open>the dispatch loop\<close>

lemma dispatchRows_skips_conflicts:
  "dispatchRows rec c row parent localPath rows st =
   dispatchRows rec c row parent localPath (filter (\<lambda>r. cloudNode r \<noteq> NAME_CONFLICT) rows) st"
proof (induction rows arbitrary: st)
  case Nil
  show ?case by simp
next
  case (Cons r rows)
  show ?case
  proof (cases "cloudNode r = NAME_CONFLICT")
    case True
    then show ?thesis using Cons.IH by simp
  next
    case False
    then show ?thesis using Cons.IH
      by (auto split: sum.splits prod.splits option.splits)
  qed
qed

subsection \<open>the rows of a directory\<close>

lemma row_kept_filter_length:
  "list_all2 row_kept rows rows' \<Longrightarrow>
   length (filter (rowHasFsKey c k) rows') = length (filter (rowHasFsKey c k) rows)"
  by (induction rule: list_all2_induct) (auto simp: row_kept_def rowHasFsKey_def)

lemma list_all2_in_set:
  "list_all2 P xs ys \<Longrightarrow> y \<in> set ys \<Longrightarrow> \<exists>x\<in>set xs. P x y"
  by (induction rule: list_all2_induct) auto

lemma mset_filter_length:
  "mset xs = mset ys \<Longrightarrow> length (filter P xs) = length (filter P ys)"
  by (metis mset_filter size_mset)

lemma buildChildRows_ok:
  "(\<forall>k. length (filter (rowHasFsKey c k) (buildChildRows c fs sy cl))
         = (if k \<in> fsKey c ` set fs then 1 else 0)) \<and>
   (\<forall>r\<in>set (buildChildRows c fs sy cl).
      case fsNode r of
        None \<Rightarrow> cloudNode r \<noteq> NAME_CONFLICT
      | Some g \<Rightarrow> g \<in> set fs \<and>
          (cloudNode r = NAME_CONFLICT \<longleftrightarrow> 1 < length (filter (\<lambda>f. fsKey c f = fsKey c g) fs)))"
proof -
  define fss where "fss = sort_by (cloudCmpFS c) fs"
  define rows1 where "rows1 = pairFsSync c fss (sort_by (cloudCmpSync c) sy)"
  define rows1s where "rows1s = sort_by (localCmpRow c) rows1"
  define out where "out = pairCloudRows c (sort_by (localCmpNode c) cl) rows1s"
  have b: "buildChildRows c fs sy cl = fst out @ snd out"
    by (simp add: buildChildRows_def Let_def out_def rows1s_def rows1_def fss_def)
  have "sorted (map (fsKey c) fss)"
    unfolding fss_def by (rule sorted_sort_by) (rule cloudCmpFS_iff)
  then have ok1: "fs_rows_ok c fss rows1" unfolding rows1_def by (rule pairFsSync_rows_ok)
  have mfs: "mset fss = mset fs" unfolding fss_def by (rule mset_sort_by)
  then have sfs: "set fss = set fs" by (rule mset_eq_setD)
  have cnt: "\<And>g. length (filter (\<lambda>f. fsKey c f = fsKey c g) fss)
               = length (filter (\<lambda>f. fsKey c f = fsKey c g) fs)"
    using mfs by (rule mset_filter_length)
  have m1: "mset rows1s = mset rows1" unfolding rows1s_def by (rule mset_sort_by)
  have ok2: "cloud_rows_ok rows1s out" unfolding out_def by (rule pairCloudRows_ok)
  then have k: "list_all2 row_kept rows1s (fst out)"
    and nw: "\<forall>r\<in>set (snd out). cloudNode r \<noteq> NAME_CONFLICT \<and> syncNode r = None \<and> fsNode r = None"
    by (simp_all add: cloud_rows_ok_def)
  have A: "\<forall>k. length (filter (rowHasFsKey c k) (buildChildRows c fs sy cl))
         = (if k \<in> fsKey c ` set fs then 1 else 0)"
  proof
    fix k
    have "filter (rowHasFsKey c k) (snd out) = []"
      using nw by (auto simp: filter_empty_conv rowHasFsKey_def)
    then have "length (filter (rowHasFsKey c k) (buildChildRows c fs sy cl))
        = length (filter (rowHasFsKey c k) (fst out))" by (simp add: b)
    also have "\<dots> = length (filter (rowHasFsKey c k) rows1s)"
      using k by (rule row_kept_filter_length)
    also have "\<dots> = length (filter (rowHasFsKey c k) rows1)"
      using m1 by (rule mset_filter_length)
    also have "\<dots> = (if k \<in> fsKey c ` set fss then 1 else 0)"
      using ok1 by (simp add: fs_rows_ok_def)
    finally show "length (filter (rowHasFsKey c k) (buildChildRows c fs sy cl))
         = (if k \<in> fsKey c ` set fs then 1 else 0)" by (simp add: sfs)
  qed
  have B: "\<forall>r\<in>set (buildChildRows c fs sy cl).
      case fsNode r of
        None \<Rightarrow> cloudNode r \<noteq> NAME_CONFLICT
      | Some g \<Rightarrow> g \<in> set fs \<and>
          (cloudNode r = NAME_CONFLICT \<longleftrightarrow> 1 < length (filter (\<lambda>f. fsKey c f = fsKey c g) fs))"
  proof
    fix r assume "r \<in> set (buildChildRows c fs sy cl)"
    then consider (old) "r \<in> set (fst out)" | (new) "r \<in> set (snd out)" by (auto simp: b)
    then show "case fsNode r of
        None \<Rightarrow> cloudNode r \<noteq> NAME_CONFLICT
      | Some g \<Rightarrow> g \<in> set fs \<and>
          (cloudNode r = NAME_CONFLICT \<longleftrightarrow> 1 < length (filter (\<lambda>f. fsKey c f = fsKey c g) fs))"
    proof cases
      case new
      with nw show ?thesis by simp
    next
      case old
      with k obtain r0 where r0: "r0 \<in> set rows1s" "row_kept r0 r"
        by (blast dest: list_all2_in_set)
      from r0(1) m1 have "r0 \<in> set rows1" by (metis mset_eq_setD)
      with ok1 have p: "case fsNode r0 of
           None \<Rightarrow> cloudNode r0 = CloudNull
         | Some g \<Rightarrow> g \<in> set fss \<and>
             cloudNode r0 = (if 1 < length (filter (\<lambda>f. fsKey c f = fsKey c g) fss)
                           then NAME_CONFLICT else CloudNull)"
        by (simp add: fs_rows_ok_def)
      show ?thesis
      proof (cases "fsNode r0")
        case None
        with p r0(2) show ?thesis by (auto simp: row_kept_def)
      next
        case (Some g)
        with p r0(2) cnt [of g] sfs show ?thesis
          by (auto simp: row_kept_def split: if_splits)
      qed
    qed
  qed
  from A B show ?thesis by blast
qed

lemma syncItem_cloud_present:
  "cloudNode r \<noteq> CloudNull \<Longrightarrow> syncItem c r row fullPath st = Inr (r, st)"
  by (auto simp: syncItem_def split: option.splits)

lemma length_filter_one: "length xs = 1 \<Longrightarrow> \<exists>x. xs = [x]"
  by (cases xs) auto

text \<open>
  Claim C6. When more than one scanned filesystem child has the normal form \<open>k\<close> of its name,
  exactly one row of the directory carries a filesystem entry of that name, and its cloud
  slot is \<open>NAME_CONFLICT\<close>. The second pairing loop returns a row marked \<open>NAME_CONFLICT\<close>
  unchanged, and the rows it adds are not so marked. The dispatch loop passes over the marked
  rows: it does what it would do without them, and on marked rows alone it returns with the
  state unchanged. \<^verbatim>\<open>syncItem\<close> itself would leave such a row and the state unchanged.
\<close>

theorem C6_name_conflict_rows:
  "(1 < length (filter (\<lambda>f. fsKey c f = k) fsChildren) \<longrightarrow>
      (\<exists>r. filter (rowHasFsKey c k) (buildChildRows c fsChildren syncChildren cloudChildren) = [r] \<and>
           cloudNode r = NAME_CONFLICT)) \<and>
   list_all2 row_kept rows (fst (pairCloudRows c cl rows)) \<and>
   (\<forall>r\<in>set (snd (pairCloudRows c cl rows)). cloudNode r \<noteq> NAME_CONFLICT) \<and>
   dispatchRows rec c row parent localPath rows st =
     dispatchRows rec c row parent localPath (filter (\<lambda>r. cloudNode r \<noteq> NAME_CONFLICT) rows) st \<and>
   ((\<forall>r\<in>set rows. cloudNode r = NAME_CONFLICT) \<longrightarrow>
      dispatchRows rec c row parent localPath rows st = Some (Inr (True, RetDone, st))) \<and>
   (cloudNode r1 = NAME_CONFLICT \<longrightarrow> syncItem c r1 row localPath st = Inr (r1, st))"
proof (intro conjI impI)
  assume m: "1 < length (filter (\<lambda>f. fsKey c f = k) fsChildren)"
  let ?rows = "buildChildRows c fsChildren syncChildren cloudChildren"
  from m have "filter (\<lambda>f. fsKey c f = k) fsChildren \<noteq> []" by auto
  then obtain g where g: "g \<in> set fsChildren" "fsKey c g = k"
    by (auto simp: filter_empty_conv)
  note ok = buildChildRows_ok [of c fsChildren syncChildren cloudChildren]
  from ok g have "length (filter (rowHasFsKey c k) ?rows) = 1" by auto
  then obtain r where r: "filter (rowHasFsKey c k) ?rows = [r]" by (blast dest: length_filter_one)
  then have "r \<in> set (filter (rowHasFsKey c k) ?rows)" by simp
  then have rin: "r \<in> set ?rows" and rk: "rowHasFsKey c k r" by auto
  from rk obtain g' where g': "fsNode r = Some g'" "fsKey c g' = k"
    by (auto simp: rowHasFsKey_def split: option.splits)
  from ok rin g'(1) have "cloudNode r = NAME_CONFLICT \<longleftrightarrow>
      1 < length (filter (\<lambda>f. fsKey c f = fsKey c g') fsChildren)" by force
  with m g'(2) have "cloudNode r = NAME_CONFLICT" by simp
  with r show "\<exists>r. filter (rowHasFsKey c k) ?rows = [r] \<and> cloudNode r = NAME_CONFLICT" by blast
next
  show "list_all2 row_kept rows (fst (pairCloudRows c cl rows))"
    using pairCloudRows_ok [of rows c cl] by (simp add: cloud_rows_ok_def)
next
  show "\<forall>r\<in>set (snd (pairCloudRows c cl rows)). cloudNode r \<noteq> NAME_CONFLICT"
    using pairCloudRows_ok [of rows c cl] by (simp add: cloud_rows_ok_def)
next
  show "dispatchRows rec c row parent localPath rows st =
     dispatchRows rec c row parent localPath (filter (\<lambda>r. cloudNode r \<noteq> NAME_CONFLICT) rows) st"
    by (rule dispatchRows_skips_conflicts)
next
  assume "\<forall>r\<in>set rows. cloudNode r = NAME_CONFLICT"
  then have "filter (\<lambda>r. cloudNode r \<noteq> NAME_CONFLICT) rows = []" by (simp add: filter_empty_conv)
  then show "dispatchRows rec c row parent localPath rows st = Some (Inr (True, RetDone, st))"
    using dispatchRows_skips_conflicts [of rec c row parent localPath rows st] by simp
next
  assume "cloudNode r1 = NAME_CONFLICT"
  then show "syncItem c r1 row localPath st = Inr (r1, st)"
    by (intro syncItem_cloud_present) simp
qed

theorem C6_name_conflict_rows_witness:
  "1 < length (filter (\<lambda>f. fsKey ex_client f = ''readme'') [ex_fs ''README'', ex_fs ''Readme'']) \<and>
   map (\<lambda>r. (cloudNode r, syncNode r, map_option fs_name (fsNode r))) ex_conflict_rows
     = [(NAME_CONFLICT, None, Some ''README'')] \<and>
   (\<exists>r. filter (rowHasFsKey ex_client ''readme'') ex_conflict_rows = [r] \<and> cloudNode r = NAME_CONFLICT) \<and>
   dispatchRows (recursiveSync 1 ex_client) ex_client ex_row 0 ''/r'' ex_conflict_rows
       (ex_state SYNCTREE_RESOLVED)
     = Some (Inr (True, RetDone, ex_state SYNCTREE_RESOLVED)) \<and>
   st_events (ex_state SYNCTREE_RESOLVED) = []"
proof -
  have h1: "1 < length (filter (\<lambda>f. fsKey ex_client f = ''readme'') [ex_fs ''README'', ex_fs ''Readme''])"
    by code_simp
  have v: "map (\<lambda>r. (cloudNode r, syncNode r, map_option fs_name (fsNode r))) ex_conflict_rows
     = [(NAME_CONFLICT, None, Some ''README'')]"
    by code_simp
  have h2: "\<forall>r\<in>set ex_conflict_rows. cloudNode r = NAME_CONFLICT"
    by code_simp
  note T = C6_name_conflict_rows [where c = ex_client and k = "''readme''"
      and fsChildren = "[ex_fs ''README'', ex_fs ''Readme'']" and syncChildren = "[]"
      and cloudChildren = "[ex_cloud 5 ''README'' []]" and rows = ex_conflict_rows
      and rec = "recursiveSync 1 ex_client" and row = ex_row and parent = 0 and localPath = "''/r''"
      and st = "ex_state SYNCTREE_RESOLVED", folded ex_conflict_rows_def]
  from T h1 have a: "\<exists>r. filter (rowHasFsKey ex_client ''readme'') ex_conflict_rows = [r] \<and>
      cloudNode r = NAME_CONFLICT" by blast
  from T h2 have b: "dispatchRows (recursiveSync 1 ex_client) ex_client ex_row 0 ''/r'' ex_conflict_rows
       (ex_state SYNCTREE_RESOLVED) = Some (Inr (True, RetDone, ex_state SYNCTREE_RESOLVED))" by blast
  have e: "st_events (ex_state SYNCTREE_RESOLVED) = []" by (simp add: ex_state_def)
  from h1 v a b e show ?thesis by blast
qed

end
